theory Spec2Isabelle
  imports Complex_Main
begin

section \<open>Connex: grid model, game state and movement\<close>

text \<open>
  The JavaScript keeps cells as objects \<open>{x, y}\<close> and identifies them through the
  string key \<open>keyOf(x, y) = "x,y"\<close>, which is injective on integer pairs; a cell is
  modelled as a pair of integers and a set of keys as a set of cells. A wall key
  \<open>"x,y|right"\<close> or \<open>"x,y|down"\<close> is a cell with a direction tag. An anchor
  \<open>{x, y, n}\<close> is a cell with its number.
\<close>

type_synonym cell = "int \<times> int"

datatype wdir = WRight | WDown

type_synonym wall = "cell \<times> wdir"

type_synonym anchor = "cell \<times> int"

datatype dir = DUp | DRight | DDown | DLeft

text \<open>The errors that the modelled code raises or passes on.\<close>

datatype js_error = TypeError | RangeError

text \<open>What \<open>savedLayout\<close> keeps of a generated layout.\<close>

record layout =
  l_cols :: int
  l_rows :: int
  l_playerStart :: cell
  l_goalPos :: cell
  l_anchors :: "anchor list"
  l_walls :: "wall set"

datatype message =
    MsgNone
  | MsgBlocked
  | MsgStepBack
  | MsgAlreadyWalked
  | MsgWin
  | MsgSearching nat
  | MsgNotSolvable nat
  | MsgUncertain nat
  | MsgCouldNotGenerate
  | MsgNewLayout

text \<open>The global variables of the script that the game logic reads and writes.\<close>

record game =
  COLS :: int
  ROWS :: int
  player :: cell
  goal :: cell
  trail :: "cell list"
  visitedCells :: "cell set"
  anchors :: "anchor list"
  anchorsMap :: "cell \<Rightarrow> int option"
  walls :: "wall set"
  gameOver :: bool
  savedLayout :: "layout option"
  status :: message

definition getCellNumber :: "game \<Rightarrow> cell \<Rightarrow> int option" where
  "getCellNumber g c = anchorsMap g c"

definition K :: "game \<Rightarrow> int" where
  "K g = int (length (anchors g))"

text \<open>\<open>numbersFirstOrder\<close>: the loop over the trail, with its \<open>seen\<close> set and its
  \<open>order\<close> array.\<close>

fun numbersFirstOrder_loop :: "game \<Rightarrow> cell list \<Rightarrow> int set \<times> int list \<Rightarrow> int set \<times> int list" where
  "numbersFirstOrder_loop g [] acc = acc"
| "numbersFirstOrder_loop g (p # ps) (seen, order) =
     (case getCellNumber g p of
        None \<Rightarrow> numbersFirstOrder_loop g ps (seen, order)
      | Some n \<Rightarrow>
          if n \<notin> seen then numbersFirstOrder_loop g ps (insert n seen, order @ [n])
          else numbersFirstOrder_loop g ps (seen, order))"

definition numbersFirstOrder :: "game \<Rightarrow> int list" where
  "numbersFirstOrder g = snd (numbersFirstOrder_loop g (trail g) ({}, []))"

text \<open>\<open>blockedByWall(x0, y0, nx, ny)\<close>.\<close>

fun blockedByWall :: "wall set \<Rightarrow> cell \<Rightarrow> cell \<Rightarrow> bool" where
  "blockedByWall W (x0, y0) (nx, ny) =
     (let dx = nx - x0; dy = ny - y0 in
      if dx = 1 \<and> dy = 0 then ((x0, y0), WRight) \<in> W
      else if dx = -1 \<and> dy = 0 then ((nx, ny), WRight) \<in> W
      else if dx = 0 \<and> dy = 1 then ((x0, y0), WDown) \<in> W
      else if dx = 0 \<and> dy = -1 then ((nx, ny), WDown) \<in> W
      else False)"

text \<open>The bounds test of \<open>move\<close> and of the verifier, negated:
  \<open>!(nx < 0 || ny < 0 || nx >= COLS || ny >= ROWS)\<close>.\<close>

definition inBounds :: "int \<Rightarrow> int \<Rightarrow> cell \<Rightarrow> bool" where
  "inBounds c r p = (\<not> (fst p < 0 \<or> snd p < 0 \<or> fst p \<ge> c \<or> snd p \<ge> r))"

fun target :: "dir \<Rightarrow> cell \<Rightarrow> cell" where
  "target DUp (x0, y0) = (x0, y0 - 1)"
| "target DRight (x0, y0) = (x0 + 1, y0)"
| "target DDown (x0, y0) = (x0, y0 + 1)"
| "target DLeft (x0, y0) = (x0 - 1, y0)"

text \<open>\<open>isImmediateBack(nx, ny)\<close>: the target is the second-to-last trail cell.\<close>

definition isImmediateBack :: "game \<Rightarrow> cell \<Rightarrow> bool" where
  "isImmediateBack g t =
     (if length (trail g) < 2 then False else trail g ! (length (trail g) - 2) = t)"

text \<open>\<open>must\<close> is \<open>[1, ..., K]\<close>; \<open>visitedInOrder\<close> compares \<open>order\<close> with it
  position by position.\<close>

definition must :: "game \<Rightarrow> int list" where
  "must g = map (\<lambda>i. int i + 1) [0..<length (anchors g)]"

definition visitedInOrder :: "game \<Rightarrow> bool" where
  "visitedInOrder g =
     (let order = numbersFirstOrder g in
      int (length order) = K g \<and> list_all (\<lambda>i. order ! i = must g ! i) [0..<length order])"

text \<open>
  The win test at the end of a forward move. \<open>anchors.find(a => a.n === K())\<close> is
  \<open>undefined\<close> when no anchor bears the number \<open>K\<close>; reading \<open>finalA.x\<close> then raises a
  TypeError, after the player, the trail and the coverage set have been updated.
  The two copies of the script differ in the coverage test only: the main script
  compares the length of the trail, \<open>public/connex.js\<close> the size of
  \<open>visitedCells\<close>.
\<close>

definition winCheck :: "bool \<Rightarrow> game \<Rightarrow> js_error option \<times> game" where
  "winCheck walkedAll g =
     (case find (\<lambda>a. snd a = K g) (anchors g) of
        None \<Rightarrow> (Some TypeError, g)
      | Some finalA \<Rightarrow>
          let atGoal = (player g = fst finalA) in
          if walkedAll \<and> visitedInOrder g \<and> atGoal
          then (None, g\<lparr>gameOver := True, status := MsgWin\<rparr>)
          else (None, g))"

text \<open>\<open>move(dir)\<close> of the main script (\<open>walkedAll = trail.length === COLS * ROWS\<close>).\<close>

definition move :: "dir \<Rightarrow> game \<Rightarrow> js_error option \<times> game" where
  "move d g =
     (if gameOver g then (None, g)
      else
        let t = target d (player g) in
        if \<not> inBounds (COLS g) (ROWS g) t then (None, g)
        else if blockedByWall (walls g) (player g) t then (None, g\<lparr>status := MsgBlocked\<rparr>)
        else if t \<in> set (trail g) then
          (if isImmediateBack g t
           then (None, g\<lparr>trail := butlast (trail g), player := t, status := MsgStepBack\<rparr>)
           else (None, g\<lparr>status := MsgAlreadyWalked\<rparr>))
        else
          let g1 = g\<lparr>player := t, trail := trail g @ [t],
                     visitedCells := insert t (visitedCells g)\<rparr>
          in winCheck (int (length (trail g1)) = COLS g1 * ROWS g1) g1)"

text \<open>\<open>move(dir)\<close> of \<open>public/connex.js\<close>
  (\<open>walkedAll = visitedCells.size === COLS * ROWS\<close>).\<close>

definition move_public :: "dir \<Rightarrow> game \<Rightarrow> js_error option \<times> game" where
  "move_public d g =
     (if gameOver g then (None, g)
      else
        let t = target d (player g) in
        if \<not> inBounds (COLS g) (ROWS g) t then (None, g)
        else if blockedByWall (walls g) (player g) t then (None, g\<lparr>status := MsgBlocked\<rparr>)
        else if t \<in> set (trail g) then
          (if isImmediateBack g t
           then (None, g\<lparr>trail := butlast (trail g), player := t, status := MsgStepBack\<rparr>)
           else (None, g\<lparr>status := MsgAlreadyWalked\<rparr>))
        else
          let g1 = g\<lparr>player := t, trail := trail g @ [t],
                     visitedCells := insert t (visitedCells g)\<rparr>
          in winCheck (int (card (visitedCells g1)) = COLS g1 * ROWS g1) g1)"

text \<open>A sequence of key presses, stopping at a raised error.\<close>

fun moves :: "(dir \<Rightarrow> game \<Rightarrow> js_error option \<times> game) \<Rightarrow> dir list \<Rightarrow> game \<Rightarrow> js_error option \<times> game" where
  "moves mv [] g = (None, g)"
| "moves mv (d # ds) g =
     (case mv d g of
        (None, g') \<Rightarrow> moves mv ds g'
      | (Some e, g') \<Rightarrow> (Some e, g'))"



subsection \<open>Facts about the win test\<close>

lemma must_eq: "must g = [1..K g]"
proof -
  have "map (\<lambda>i. int i + 1) [0..<n] = [1..int n]" for n
  proof (induction n)
    case 0 show ?case by simp
  next
    case (Suc n)
    have "[1..int (Suc n)] = [1..int n] @ [int n + 1]"
      using upto_rec2[of 1 "int n + 1"] by (simp add: add.commute)
    with Suc show ?case by simp
  qed
  then show ?thesis by (simp add: must_def K_def)
qed

lemma every_index_eq:
  "(length xs = length ys \<and> list_all (\<lambda>i. xs ! i = ys ! i) [0..<length xs]) \<longleftrightarrow> xs = ys"
proof
  assume "length xs = length ys \<and> list_all (\<lambda>i. xs ! i = ys ! i) [0..<length xs]"
  then show "xs = ys" by (intro nth_equalityI) (simp_all add: list_all_iff)
next
  assume "xs = ys"
  then show "length xs = length ys \<and> list_all (\<lambda>i. xs ! i = ys ! i) [0..<length xs]"
    by (simp add: list_all_iff)
qed

lemma visitedInOrder_iff: "visitedInOrder g \<longleftrightarrow> numbersFirstOrder g = [1..K g]"
proof -
  have len: "int (length xs) = K g \<longleftrightarrow> length xs = length (must g)" for xs :: "int list"
    by (simp add: K_def must_def)
  show ?thesis
    unfolding visitedInOrder_def Let_def len every_index_eq
    by (simp add: must_eq)
qed

lemma numbersFirstOrder_loop_cong:
  "anchorsMap g = anchorsMap g' \<Longrightarrow>
   numbersFirstOrder_loop g ps acc = numbersFirstOrder_loop g' ps acc"
  by (induction g ps acc rule: numbersFirstOrder_loop.induct)
     (auto simp: getCellNumber_def split: option.splits)

lemma numbersFirstOrder_cong:
  "anchorsMap g = anchorsMap g' \<Longrightarrow> trail g = trail g' \<Longrightarrow>
   numbersFirstOrder g = numbersFirstOrder g'"
  by (simp add: numbersFirstOrder_def numbersFirstOrder_loop_cong[of g g'])

text \<open>The trail invariant of play: the trail is never empty, never repeats a cell, and
  ends on the player's cell. Every layout starts with \<open>trail = [player]\<close>.\<close>

definition trail_inv :: "game \<Rightarrow> bool" where
  "trail_inv g = (trail g \<noteq> [] \<and> distinct (trail g) \<and> player g = last (trail g))"

lemma winCheck_trail: "trail (snd (winCheck b g)) = trail g"
  and winCheck_player: "player (snd (winCheck b g)) = player g"
  by (auto simp: winCheck_def Let_def split: option.splits)

lemma immediateBack_butlast:
  assumes "isImmediateBack g t"
  shows "butlast (trail g) \<noteq> [] \<and> last (butlast (trail g)) = t"
proof -
  from assms have len: "2 \<le> length (trail g)" and t: "trail g ! (length (trail g) - 2) = t"
    by (auto simp: isImmediateBack_def split: if_splits)
  from len have ne: "butlast (trail g) \<noteq> []"
    by (cases "trail g" rule: rev_cases) auto
  have "last (butlast (trail g)) = butlast (trail g) ! (length (butlast (trail g)) - 1)"
    using ne by (simp add: last_conv_nth)
  also have "\<dots> = trail g ! (length (trail g) - 2)"
    using len by (simp add: nth_butlast numeral_2_eq_2)
  finally show ?thesis using ne t by simp
qed

lemma move_preserves_trail_inv:
  assumes "trail_inv g"
  shows "trail_inv (snd (move d g))"
proof -
  let ?t = "target d (player g)"
  from assms have d: "distinct (trail g)" and ne: "trail g \<noteq> []" and p: "player g = last (trail g)"
    by (auto simp: trail_inv_def)
  have bk: "trail_inv (g\<lparr>trail := butlast (trail g), player := ?t, status := MsgStepBack\<rparr>)"
    if "isImmediateBack g ?t"
    using immediateBack_butlast[OF that] d by (simp add: trail_inv_def distinct_butlast)
  have fwd: "trail_inv (snd (winCheck b (g\<lparr>player := ?t, trail := trail g @ [?t],
                     visitedCells := insert ?t (visitedCells g)\<rparr>)))"
    if "?t \<notin> set (trail g)" for b
    using that d by (simp add: trail_inv_def winCheck_trail winCheck_player)
  show ?thesis
    using assms bk fwd by (auto simp: move_def Let_def trail_inv_def)
qed

text \<open>
  The win test of the main script's \<open>move\<close>: after a forward move from a state whose
  trail is repetition-free, the game is over exactly when the trail has \<open>COLS * ROWS\<close>
  cells, each once, the first-visit order of the numbers is \<open>1, ..., K\<close>, and the last
  trail cell, where the player stands, is the cell of anchor \<open>K\<close>.
\<close>

lemma move_forward_win_iff:
  assumes "\<not> gameOver g" and "distinct (trail g)"
    and "inBounds (COLS g) (ROWS g) (target d (player g))"
    and "\<not> blockedByWall (walls g) (player g) (target d (player g))"
    and "target d (player g) \<notin> set (trail g)"
  shows "gameOver (snd (move d g)) \<longleftrightarrow>
     (int (length (trail (snd (move d g)))) = COLS g * ROWS g
      \<and> distinct (trail (snd (move d g)))
      \<and> numbersFirstOrder (snd (move d g)) = [1..K g]
      \<and> player (snd (move d g)) = last (trail (snd (move d g)))
      \<and> (\<exists>a. find (\<lambda>a. snd a = K g) (anchors g) = Some a
              \<and> last (trail (snd (move d g))) = fst a))"
proof -
  let ?t = "target d (player g)"
  let ?g1 = "g\<lparr>player := ?t, trail := trail g @ [?t], visitedCells := insert ?t (visitedCells g)\<rparr>"
  have mv: "move d g = winCheck (int (length (trail ?g1)) = COLS g * ROWS g) ?g1"
    using assms by (simp add: move_def Let_def)
  have K1: "K ?g1 = K g" by (simp add: K_def)
  have nfo: "numbersFirstOrder (snd (winCheck b ?g1)) = numbersFirstOrder ?g1" for b
    by (rule numbersFirstOrder_cong) (auto simp: winCheck_def Let_def split: option.splits)
  show ?thesis
  proof (cases "find (\<lambda>a. snd a = K g) (anchors g)")
    case None
    then show ?thesis using assms(1) by (simp add: mv winCheck_def K1)
  next
    case (Some a)
    then show ?thesis
      using assms(1,2,5)
      by (simp add: mv nfo winCheck_trail winCheck_player)
         (auto simp: winCheck_def K1 Let_def visitedInOrder_iff)
  qed
qed

subsection \<open>Example layouts\<close>

text \<open>The 2x2 layout of the specification's win scenario: anchors \<open>1@(0,0)\<close> and
  \<open>2@(0,1)\<close>, no walls.\<close>

definition demo2x2 :: game where
  "demo2x2 = \<lparr> COLS = 2, ROWS = 2, player = (0, 0), goal = (0, 1), trail = [(0, 0)],
      visitedCells = {(0, 0)}, anchors = [((0, 0), 1), ((0, 1), 2)],
      anchorsMap = [(0, 0) \<mapsto> 1, (0, 1) \<mapsto> 2], walls = {}, gameOver = False,
      savedLayout = None, status = MsgNone \<rparr>"

text \<open>The same layout after the winning keys right, down, left.\<close>

definition won2x2 :: game where
  "won2x2 = \<lparr> COLS = 2, ROWS = 2, player = (0, 1), goal = (0, 1),
      trail = [(0, 0), (1, 0), (1, 1), (0, 1)],
      visitedCells = {(0, 0), (1, 0), (1, 1), (0, 1)}, anchors = [((0, 0), 1), ((0, 1), 2)],
      anchorsMap = [(0, 0) \<mapsto> 1, (0, 1) \<mapsto> 2], walls = {}, gameOver = True,
      savedLayout = None, status = MsgWin \<rparr>"

lemma won2x2_reached: "moves move [DRight, DDown, DLeft] demo2x2 = (None, won2x2)"
  by (simp add: demo2x2_def won2x2_def move_def winCheck_def inBounds_def isImmediateBack_def
      visitedInOrder_def numbersFirstOrder_def getCellNumber_def K_def must_def Let_def
      insert_commute)


text \<open>A Zip layout as \<open>generateZip6x6\<close> of \<open>public/connex.js\<close> builds it: the 6x6
  serpentine, the picked indices \<open>0, 2, ..., 22\<close> (pairwise two apart), numbered
  \<open>1, ..., 12\<close> along the serpentine, no walls; the player starts on anchor 1.\<close>

definition zipAnchors :: "anchor list" where
  "zipAnchors = [((0, 0), 1), ((2, 0), 2), ((4, 0), 3), ((5, 1), 4), ((3, 1), 5), ((1, 1), 6),
     ((0, 2), 7), ((2, 2), 8), ((4, 2), 9), ((5, 3), 10), ((3, 3), 11), ((1, 3), 12)]"

definition zip6x6 :: game where
  "zip6x6 = \<lparr> COLS = 6, ROWS = 6, player = (0, 0), goal = (1, 3), trail = [(0, 0)],
      visitedCells = {(0, 0)}, anchors = zipAnchors,
      anchorsMap = map_of zipAnchors, walls = {}, gameOver = False,
      savedLayout = None, status = MsgNone \<rparr>"

text \<open>Fifty key presses: along the serpentine to \<open>(2,3)\<close>; a detour over the twelve
  cells \<open>(2,4), ..., (5,4), (5,5), ..., (0,5), (0,4), (0,3)\<close> and back, step by step;
  a detour to \<open>(1,4)\<close> over \<open>(2,4)\<close> and back; then left onto the goal \<open>(1,3)\<close>.\<close>

definition zipKeys :: "dir list" where
  "zipKeys =
     replicate 5 DRight @ [DDown] @ replicate 5 DLeft @ [DDown] @ replicate 5 DRight @ [DDown]
     @ replicate 3 DLeft
     @ [DDown] @ replicate 3 DRight @ [DDown] @ replicate 5 DLeft @ [DUp, DUp]
     @ [DDown, DDown] @ replicate 5 DRight @ [DUp] @ replicate 3 DLeft @ [DUp]
     @ [DDown, DLeft, DRight, DUp, DLeft]"

lemma zipKeys_main_script_no_win:
  "\<not> gameOver (snd (moves move zipKeys zip6x6))"
  by code_simp

subsection \<open>C1: win evaluation\<close>

text \<open>
  C1. After a forward move the game declares a win if and only if the trail has
  \<open>cols * rows\<close> cells, each once, the first-visit order of the checkpoint numbers is
  \<open>1, ..., K\<close>, and the last trail cell is the cell of anchor \<open>K\<close>. The main script's
  \<open>move\<close> does so (\<open>move_forward_win_iff\<close>). The \<open>move\<close> of \<open>public/connex.js\<close>
  tests the size of \<open>visitedCells\<close> instead, which keeps the cells of popped segments:
  on the Zip layout above, the fifty keys end in a declared win (no error raised)
  with a trail of 23 of the 36 cells; on the 2x2 layout, right, down, up, left, down
  end in a declared win with a trail of 2 of the 4 cells.
\<close>

theorem move_public_declares_win_on_partial_trail:
  "fst (moves move_public zipKeys zip6x6) = None
   \<and> gameOver (snd (moves move_public zipKeys zip6x6))
   \<and> length (trail (snd (moves move_public zipKeys zip6x6))) = 23
   \<and> COLS zip6x6 * ROWS zip6x6 = 36
   \<and> gameOver (snd (moves move_public [DRight, DDown, DUp, DLeft, DDown] demo2x2))
   \<and> trail (snd (moves move_public [DRight, DDown, DUp, DLeft, DDown] demo2x2)) = [(0, 0), (0, 1)]"
  by code_simp

subsection \<open>C10: stepping onto a cell of the trail\<close>

text \<open>
  C10, as stated, for every game state: when the target of a move is in bounds, not
  wall-blocked and the second-to-last trail cell, \<open>move\<close> pops the last trail cell and
  puts the player on the target. It fails once the game is over: \<open>move\<close> returns at
  its first line. In the won 2x2 game the key right targets \<open>(1,1)\<close>, the
  second-to-last trail cell, and nothing changes.
\<close>

theorem move_backdraw_game_over_counterexample:
  "inBounds (COLS won2x2) (ROWS won2x2) (target DRight (player won2x2))
   \<and> \<not> blockedByWall (walls won2x2) (player won2x2) (target DRight (player won2x2))
   \<and> target DRight (player won2x2) \<in> set (trail won2x2)
   \<and> isImmediateBack won2x2 (target DRight (player won2x2))
   \<and> trail (snd (move DRight won2x2)) \<noteq> butlast (trail won2x2)
   \<and> player (snd (move DRight won2x2)) \<noteq> target DRight (player won2x2)"
  by (simp add: won2x2_def move_def inBounds_def isImmediateBack_def)

text \<open>
  C10, amended: for every game state that is not over, when the target of a move is
  in bounds, not wall-blocked and already in the trail: if the target is the
  second-to-last trail cell, \<open>move\<close> removes exactly the last trail cell and puts the
  player on the target, \<open>visitedCells\<close> and \<open>gameOver\<close> unchanged; for any other
  target, the trail, the player, \<open>visitedCells\<close> and \<open>gameOver\<close> are unchanged. In both
  cases only the status message changes besides, and no error is raised.
\<close>

theorem move_backdraw_frame:
  assumes "\<not> gameOver g"
    and "inBounds (COLS g) (ROWS g) (target d (player g))"
    and "\<not> blockedByWall (walls g) (player g) (target d (player g))"
    and "target d (player g) \<in> set (trail g)"
  shows "(isImmediateBack g (target d (player g)) \<longrightarrow>
            move d g = (None, g\<lparr>trail := butlast (trail g), player := target d (player g),
                                status := MsgStepBack\<rparr>)
            \<and> trail (snd (move d g)) = butlast (trail g)
            \<and> trail g = trail (snd (move d g)) @ [last (trail g)]
            \<and> player (snd (move d g)) = target d (player g)
            \<and> visitedCells (snd (move d g)) = visitedCells g
            \<and> gameOver (snd (move d g)) = gameOver g)
       \<and> (\<not> isImmediateBack g (target d (player g)) \<longrightarrow>
            move d g = (None, g\<lparr>status := MsgAlreadyWalked\<rparr>)
            \<and> trail (snd (move d g)) = trail g
            \<and> player (snd (move d g)) = player g
            \<and> visitedCells (snd (move d g)) = visitedCells g
            \<and> gameOver (snd (move d g)) = gameOver g)"
proof -
  from assms(4) have "trail g \<noteq> []" by auto
  then have "butlast (trail g) @ [last (trail g)] = trail g" by simp
  with assms show ?thesis by (simp add: move_def Let_def)
qed

text \<open>Both cases on the 2x2 layout. After the key right the trail is
  \<open>(0,0), (1,0)\<close> and the key left steps back. After the keys down, right, up the
  trail is \<open>(0,0), (0,1), (1,1), (1,0)\<close>, the game is not won (the player is not on
  anchor 2), and the key left targets \<open>(0,0)\<close>, which is in the trail and is not the
  predecessor.\<close>

definition back2x2 :: game where
  "back2x2 = demo2x2\<lparr>player := (1, 0), trail := [(0, 0), (1, 0)],
                      visitedCells := {(0, 0), (1, 0)}\<rparr>"

definition loop2x2 :: game where
  "loop2x2 = demo2x2\<lparr>player := (1, 0), trail := [(0, 0), (0, 1), (1, 1), (1, 0)],
                      visitedCells := {(0, 0), (0, 1), (1, 1), (1, 0)}\<rparr>"

theorem move_backdraw_frame_witness:
  "\<not> gameOver back2x2
   \<and> inBounds (COLS back2x2) (ROWS back2x2) (target DLeft (player back2x2))
   \<and> \<not> blockedByWall (walls back2x2) (player back2x2) (target DLeft (player back2x2))
   \<and> target DLeft (player back2x2) \<in> set (trail back2x2)
   \<and> isImmediateBack back2x2 (target DLeft (player back2x2))
   \<and> trail (snd (move DLeft back2x2)) = [(0, 0)]
   \<and> player (snd (move DLeft back2x2)) = (0, 0)
   \<and> visitedCells (snd (move DLeft back2x2)) = {(0, 0), (1, 0)}
   \<and> \<not> gameOver loop2x2
   \<and> inBounds (COLS loop2x2) (ROWS loop2x2) (target DLeft (player loop2x2))
   \<and> \<not> blockedByWall (walls loop2x2) (player loop2x2) (target DLeft (player loop2x2))
   \<and> target DLeft (player loop2x2) \<in> set (trail loop2x2)
   \<and> \<not> isImmediateBack loop2x2 (target DLeft (player loop2x2))
   \<and> trail (snd (move DLeft loop2x2)) = trail loop2x2
   \<and> player (snd (move DLeft loop2x2)) = player loop2x2
   \<and> visitedCells (snd (move DLeft loop2x2)) = visitedCells loop2x2
   \<and> gameOver (snd (move DLeft loop2x2)) = gameOver loop2x2"
proof -
  have a: "\<not> gameOver back2x2"
    "inBounds (COLS back2x2) (ROWS back2x2) (target DLeft (player back2x2))"
    "\<not> blockedByWall (walls back2x2) (player back2x2) (target DLeft (player back2x2))"
    "target DLeft (player back2x2) \<in> set (trail back2x2)"
    "isImmediateBack back2x2 (target DLeft (player back2x2))"
    by (simp_all add: back2x2_def demo2x2_def inBounds_def isImmediateBack_def)
  have b: "\<not> gameOver loop2x2"
    "inBounds (COLS loop2x2) (ROWS loop2x2) (target DLeft (player loop2x2))"
    "\<not> blockedByWall (walls loop2x2) (player loop2x2) (target DLeft (player loop2x2))"
    "target DLeft (player loop2x2) \<in> set (trail loop2x2)"
    "\<not> isImmediateBack loop2x2 (target DLeft (player loop2x2))"
    by (simp_all add: loop2x2_def demo2x2_def inBounds_def isImmediateBack_def)
  have c: "butlast (trail back2x2) = [(0, 0)]" "target DLeft (player back2x2) = (0, 0)"
    "visitedCells back2x2 = {(0, 0), (1, 0)}"
    by (simp_all add: back2x2_def demo2x2_def)
  show ?thesis
    using move_backdraw_frame[OF a(1-4)] move_backdraw_frame[OF b(1-4)] a b c
    by simp
qed

section \<open>Paths: the grid's cells, template generators and transforms\<close>

definition gridCells :: "int \<Rightarrow> int \<Rightarrow> cell set" where
  "gridCells c r = {p. inBounds c r p}"

text \<open>A path that is a permutation of all grid cells: every cell of the grid, each
  exactly once.\<close>

definition isGridPermutation :: "int \<Rightarrow> int \<Rightarrow> cell list \<Rightarrow> bool" where
  "isGridPermutation c r path = (distinct path \<and> set path = gridCells c r)"

text \<open>The Hamiltonian invariant of a path, as a test that runs: \<open>cols * rows\<close> cells,
  all in the grid, none twice.\<close>

definition hamiltonian :: "int \<Rightarrow> int \<Rightarrow> cell list \<Rightarrow> bool" where
  "hamiltonian c r path =
     (int (length path) = c * r \<and> distinct path \<and> list_all (inBounds c r) path)"

text \<open>\<open>buildSnakePathBase(cols, rows)\<close>: the serpentine.\<close>

definition buildSnakePathBase :: "int \<Rightarrow> int \<Rightarrow> cell list" where
  "buildSnakePathBase cols rows =
     concat (map (\<lambda>y. if y mod 2 = 0 then map (\<lambda>x. (x, y)) [0..cols - 1]
                        else map (\<lambda>x. (x, y)) (rev [0..cols - 1]))
                 [0..rows - 1])"

text \<open>The loop counter of \<open>for (let by = 0; by < n; by += 2)\<close>.\<close>

definition stepTwo :: "int \<Rightarrow> int list" where
  "stepTwo n = filter (\<lambda>i. i mod 2 = 0) [0..n - 1]"

text \<open>The completion loop shared by the generators:
  \<open>for (const p of base) if (!path.some(q => q.x === p.x && q.y === p.y)) path.push(p)\<close>.\<close>

definition fillMissing :: "cell list \<Rightarrow> cell list \<Rightarrow> cell list" where
  "fillMissing path base = foldl (\<lambda>acc p. if p \<in> set acc then acc else acc @ [p]) path base"

text \<open>\<open>buildBlockSnakePath(cols, rows)\<close>: bands of two rows.\<close>

text \<open>One band, the body of the loop over \<open>by\<close>: the cells of the rows \<open>by\<close> and, when it
  is in the grid, \<open>by + 1\<close>, column by column.\<close>

definition blockBand :: "int \<Rightarrow> int \<Rightarrow> int \<Rightarrow> cell list" where
  "blockBand cols rows by =
     (let top = by; bottom = min (by + 1) (rows - 1);
          leftToRight = ((by div 2) mod 2 = 0);
          column = (\<lambda>x. (x, top) # (if bottom \<noteq> top then [(x, bottom)] else []))
      in if leftToRight then concat (map column [0..cols - 1])
         else concat (map column (rev [0..cols - 1])))"

definition buildBlockSnakePath :: "int \<Rightarrow> int \<Rightarrow> cell list" where
  "buildBlockSnakePath cols rows = concat (map (blockBand cols rows) (stepTwo rows))"

text \<open>\<open>buildCheckerboard2x2Path(cols, rows)\<close>: 2x2 blocks, block rows alternating in
  direction, with the completion loop when the length is not \<open>cols * rows\<close>. One
  block, one row of blocks, all rows of blocks.\<close>

definition checker2Block :: "int \<Rightarrow> int \<Rightarrow> int \<Rightarrow> int \<Rightarrow> cell list" where
  "checker2Block cols rows by bx =
     (let blockRow = by div 2;
          xs = [bx, min (bx + 1) (cols - 1)];
          ys0 = by; ys1 = min (by + 1) (rows - 1)
      in if (bx div 2 + blockRow) mod 2 = 0
         then concat (map (\<lambda>y. map (\<lambda>x. (x, y)) xs) [ys0..ys1])
         else concat (map (\<lambda>y. map (\<lambda>x. (x, y)) xs) (rev [ys0..ys1])))"

definition checker2Row :: "int \<Rightarrow> int \<Rightarrow> int \<Rightarrow> cell list" where
  "checker2Row cols rows by =
     (let blockRow = by div 2;
          blockCols = (if blockRow mod 2 = 1 then rev (stepTwo cols) else stepTwo cols)
      in concat (map (checker2Block cols rows by) blockCols))"

definition checker2Blocks :: "int \<Rightarrow> int \<Rightarrow> cell list" where
  "checker2Blocks cols rows = concat (map (checker2Row cols rows) (stepTwo rows))"

definition buildCheckerboard2x2Path :: "int \<Rightarrow> int \<Rightarrow> cell list" where
  "buildCheckerboard2x2Path cols rows =
     (let path = checker2Blocks cols rows; total = cols * rows
      in if int (length path) \<noteq> total then fillMissing path (buildSnakePathBase cols rows)
         else path)"

text \<open>\<open>rotatePoint(p, rot, cols, rows)\<close>; \<open>rot\<close> is \<open>Math.floor(Math.random() * 4)\<close>,
  a natural number.\<close>

fun rotatePoint :: "cell \<Rightarrow> nat \<Rightarrow> int \<Rightarrow> int \<Rightarrow> cell" where
  "rotatePoint (x, y) rot cols rows =
     (if rot mod 4 = 0 then (x, y)
      else if rot mod 4 = 1 then (y, cols - 1 - x)
      else if rot mod 4 = 2 then (cols - 1 - x, rows - 1 - y)
      else (rows - 1 - y, x))"

text \<open>The transforms of \<open>buildRandomSnakePath\<close>:
  \<open>snake.map(pt => rotatePoint(pt, rot, cols, rows))\<close>,
  \<open>snake.map(pt => ({ x: cols - 1 - pt.x, y: pt.y }))\<close>,
  \<open>snake.map(pt => ({ x: pt.x, y: rows - 1 - pt.y }))\<close> and \<open>snake.reverse()\<close>.\<close>

definition rotatePath :: "nat \<Rightarrow> int \<Rightarrow> int \<Rightarrow> cell list \<Rightarrow> cell list" where
  "rotatePath rot cols rows snake = map (\<lambda>pt. rotatePoint pt rot cols rows) snake"

definition mirrorH :: "int \<Rightarrow> cell list \<Rightarrow> cell list" where
  "mirrorH cols snake = map (\<lambda>pt. (cols - 1 - fst pt, snd pt)) snake"

definition mirrorV :: "int \<Rightarrow> cell list \<Rightarrow> cell list" where
  "mirrorV rows snake = map (\<lambda>pt. (fst pt, rows - 1 - snd pt)) snake"


subsection \<open>The grid's cells\<close>

lemma gridCells_Times: "gridCells c r = {0..<c} \<times> {0..<r}"
  by (auto simp: gridCells_def inBounds_def)

lemma finite_gridCells: "finite (gridCells c r)"
  by (simp add: gridCells_Times)

lemma card_gridCells: "card (gridCells c r) = nat c * nat r"
  by (simp add: gridCells_Times card_cartesian_product)

lemma pair_image_iff: "(a, b) \<in> (\<lambda>x. (x, y)) ` S \<longleftrightarrow> a \<in> S \<and> b = y"
  by auto

lemma gridCells_code:
  "gridCells c r = set (concat (map (\<lambda>y. map (\<lambda>x. (x, y)) [0..c - 1]) [0..r - 1]))"
  by (auto simp: gridCells_def inBounds_def pair_image_iff)

lemma isGridPermutation_length:
  "isGridPermutation c r path \<Longrightarrow> length path = nat c * nat r"
  using distinct_card[of path] by (simp add: isGridPermutation_def card_gridCells)

lemma hamiltonian_iff:
  "hamiltonian c r path \<longleftrightarrow> int (length path) = c * r \<and> isGridPermutation c r path"
proof
  assume h: "hamiltonian c r path"
  then have len: "int (length path) = c * r" and d: "distinct path"
    and sub: "set path \<subseteq> gridCells c r"
    by (auto simp: hamiltonian_def gridCells_def list_all_iff)
  have "card (gridCells c r) = length path"
  proof (cases "path = []")
    case True
    with len have "c = 0 \<or> r = 0" by simp
    then show ?thesis using True by (auto simp: card_gridCells)
  next
    case False
    then obtain p where "p \<in> set path" by (cases path) auto
    with sub have "inBounds c r p" by (auto simp: gridCells_def)
    then have "0 < c" "0 < r" by (auto simp: inBounds_def)
    then have "int (nat c * nat r) = c * r" by simp
    with len show ?thesis unfolding card_gridCells by linarith
  qed
  then have "card (set path) = card (gridCells c r)" using d by (simp add: distinct_card)
  with sub have "set path = gridCells c r"
    by (simp add: card_subset_eq finite_gridCells)
  with len d show "int (length path) = c * r \<and> isGridPermutation c r path"
    by (simp add: isGridPermutation_def)
next
  assume "int (length path) = c * r \<and> isGridPermutation c r path"
  then show "hamiltonian c r path"
    by (auto simp: hamiltonian_def isGridPermutation_def gridCells_def list_all_iff)
qed

lemma isGridPermutation_hamiltonian:
  "0 \<le> c \<Longrightarrow> 0 \<le> r \<Longrightarrow> isGridPermutation c r path \<Longrightarrow> hamiltonian c r path"
  using isGridPermutation_length[of c r path] by (simp add: hamiltonian_iff)

subsection \<open>The serpentine and the completion loop\<close>

lemma set_buildSnakePathBase: "set (buildSnakePathBase cols rows) = gridCells cols rows"
  by (auto simp: buildSnakePathBase_def gridCells_def inBounds_def pair_image_iff)

lemma length_buildSnakePathBase: "length (buildSnakePathBase cols rows) = nat cols * nat rows"
proof -
  have "length (buildSnakePathBase cols rows)
      = sum_list (map (\<lambda>y. nat cols) [0..rows - 1])"
    unfolding buildSnakePathBase_def length_concat map_map
    by (rule arg_cong[where f = sum_list], rule map_cong) (auto simp: comp_def)
  then show ?thesis by (simp add: sum_list_triv)
qed

lemma buildSnakePathBase_permutation:
  "isGridPermutation cols rows (buildSnakePathBase cols rows)"
proof -
  have "card (set (buildSnakePathBase cols rows)) = length (buildSnakePathBase cols rows)"
    by (simp add: set_buildSnakePathBase card_gridCells length_buildSnakePathBase)
  then show ?thesis
    by (simp add: isGridPermutation_def set_buildSnakePathBase card_distinct)
qed

lemma fillMissing_set: "set (fillMissing path base) = set path \<union> set base"
  unfolding fillMissing_def by (induction base arbitrary: path) auto

lemma fillMissing_distinct: "distinct path \<Longrightarrow> distinct (fillMissing path base)"
  unfolding fillMissing_def by (induction base arbitrary: path) auto

lemma fillMissing_no_new_duplicate:
  "\<exists>ext. fillMissing path base = path @ ext \<and> distinct ext \<and> set ext \<inter> set path = {}
         \<and> set ext \<subseteq> set base"
  unfolding fillMissing_def
proof (induction base arbitrary: path)
  case Nil
  show ?case by simp
next
  case (Cons p base)
  show ?case
  proof (cases "p \<in> set path")
    case True
    with Cons[of path] show ?thesis by auto
  next
    case False
    from Cons[of "path @ [p]"] obtain ext where
      e: "foldl (\<lambda>acc p. if p \<in> set acc then acc else acc @ [p]) (path @ [p]) base
            = (path @ [p]) @ ext"
      "distinct ext" "set ext \<inter> set (path @ [p]) = {}" "set ext \<subseteq> set base"
      by blast
    show ?thesis
      by (rule exI[of _ "p # ext"]) (use False e in auto)
  qed
qed


subsection \<open>The block generators\<close>

lemma distinct_concat_map:
  assumes "distinct xs" and "\<And>x. x \<in> set xs \<Longrightarrow> distinct (f x)"
    and "\<And>x y. x \<in> set xs \<Longrightarrow> y \<in> set xs \<Longrightarrow> x \<noteq> y \<Longrightarrow> set (f x) \<inter> set (f y) = {}"
  shows "distinct (concat (map f xs))"
  using assms
proof (induction xs)
  case Nil
  show ?case by simp
next
  case (Cons a xs)
  have "distinct (concat (map f xs))"
    using Cons.prems by (intro Cons.IH) auto
  moreover have "distinct (f a)" using Cons.prems(2) by simp
  moreover have "set (f a) \<inter> set (f x) = {}" if "x \<in> set xs" for x
    using Cons.prems(1) Cons.prems(3)[of a x] that by auto
  ultimately show ?case by auto
qed

lemma set_blockBand:
  "by < rows \<Longrightarrow> set (blockBand cols rows by) = {0..<cols} \<times> {by..min (by + 1) (rows - 1)}"
  by (auto simp: blockBand_def Let_def split: if_splits)

lemma distinct_blockBand: "distinct (blockBand cols rows by)"
proof -
  have "distinct (concat (map (\<lambda>x. (x, by) # (if b \<noteq> by then [(x, b)] else [])) xs))"
    if "distinct xs" for xs :: "int list" and b
    using that by (intro distinct_concat_map) auto
  then show ?thesis by (simp add: blockBand_def Let_def)
qed

text \<open>\<open>buildBlockSnakePath\<close> returns a permutation of the grid for every size.\<close>

lemma buildBlockSnakePath_permutation:
  "isGridPermutation cols rows (buildBlockSnakePath cols rows)"
proof -
  have st: "set (stepTwo rows) = {by. 0 \<le> by \<and> by < rows \<and> by mod 2 = 0}"
    by (auto simp: stepTwo_def)
  have d: "distinct (buildBlockSnakePath cols rows)"
    unfolding buildBlockSnakePath_def
  proof (rule distinct_concat_map)
    show "distinct (stepTwo rows)" by (simp add: stepTwo_def)
    show "distinct (blockBand cols rows b0)" for b0 by (rule distinct_blockBand)
    fix a b assume "a \<in> set (stepTwo rows)" "b \<in> set (stepTwo rows)" "a \<noteq> b"
    then have ab: "a mod 2 = 0" "b mod 2 = 0" "a \<noteq> b" "a < rows" "b < rows"
      by (simp_all add: st)
    then have "a + 1 < b \<or> b + 1 < a" by presburger
    then show "set (blockBand cols rows a) \<inter> set (blockBand cols rows b) = {}"
      unfolding set_blockBand[OF ab(4)] set_blockBand[OF ab(5)] by auto
  qed
  have s: "set (buildBlockSnakePath cols rows) = gridCells cols rows"
  proof (intro equalityI subsetI)
    fix p assume "p \<in> set (buildBlockSnakePath cols rows)"
    then obtain b0 where "b0 \<in> set (stepTwo rows)" "p \<in> set (blockBand cols rows b0)"
      unfolding buildBlockSnakePath_def by auto
    then show "p \<in> gridCells cols rows"
      using set_blockBand[of b0 rows cols] unfolding st
      by (auto simp: gridCells_def inBounds_def)
  next
    fix p assume "p \<in> gridCells cols rows"
    then obtain x y where p: "p = (x, y)" and b: "0 \<le> x" "x < cols" "0 \<le> y" "y < rows"
      by (cases p) (auto simp: gridCells_def inBounds_def)
    let ?b = "y - y mod 2"
    have m: "?b mod 2 = 0" "0 \<le> ?b" "?b \<le> y" "y \<le> ?b + 1"
      using b(3) by presburger+
    then have "?b \<in> set (stepTwo rows)" using b by (simp add: st)
    moreover have "?b < rows" using m b by simp
    then have "p \<in> set (blockBand cols rows ?b)"
      unfolding set_blockBand[OF \<open>?b < rows\<close>] p using b m by auto
    ultimately show "p \<in> set (buildBlockSnakePath cols rows)"
      unfolding buildBlockSnakePath_def by auto
  qed
  from d s show ?thesis by (simp add: isGridPermutation_def)
qed


lemma set_stepTwo: "set (stepTwo n) = {i. 0 \<le> i \<and> i < n \<and> i mod 2 = 0}"
  by (auto simp: stepTwo_def)

lemma distinct_stepTwo: "distinct (stepTwo n)"
  by (simp add: stepTwo_def)

lemma fillMissing_full: "set base \<subseteq> set path \<Longrightarrow> fillMissing path base = path"
  unfolding fillMissing_def by (induction base) auto

lemma set_checker2Block:
  assumes "cols mod 2 = 0" and "bx \<in> set (stepTwo cols)" and "by < rows"
  shows "set (checker2Block cols rows by bx) = {bx..bx + 1} \<times> {by..min (by + 1) (rows - 1)}"
proof -
  from assms(2) have "bx < cols" "bx mod 2 = 0" by (simp_all add: set_stepTwo)
  with assms(1) have "bx + 1 \<le> cols - 1" by presburger
  then have m: "min (bx + 1) (cols - 1) = bx + 1" by simp
  have "{bx, bx + 1} = {bx..bx + 1}" by auto
  then show ?thesis
    by (auto simp: checker2Block_def Let_def m pair_image_iff)
qed

lemma distinct_checker2Block:
  assumes "cols mod 2 = 0" and "bx \<in> set (stepTwo cols)"
  shows "distinct (checker2Block cols rows by bx)"
proof -
  from assms(2) have "bx < cols" "bx mod 2 = 0" by (simp_all add: set_stepTwo)
  with assms(1) have "bx + 1 \<le> cols - 1" by presburger
  then have m: "min (bx + 1) (cols - 1) = bx + 1" by simp
  have "distinct (concat (map (\<lambda>y. map (\<lambda>x. (x, y)) [bx, bx + 1]) ys))"
    if "distinct ys" for ys :: "int list"
    using that by (intro distinct_concat_map) auto
  then show ?thesis by (simp add: checker2Block_def Let_def m)
qed

lemma set_checker2Row:
  assumes "cols mod 2 = 0" and "by < rows"
  shows "set (checker2Row cols rows by) = {0..<cols} \<times> {by..min (by + 1) (rows - 1)}"
proof -
  have "set (checker2Row cols rows by)
      = (\<Union>bx\<in>set (stepTwo cols). set (checker2Block cols rows by bx))"
    by (auto simp: checker2Row_def Let_def)
  also have "\<dots> = (\<Union>bx\<in>set (stepTwo cols). {bx..bx + 1} \<times> {by..min (by + 1) (rows - 1)})"
    using set_checker2Block[OF assms(1) _ assms(2)] by simp
  also have "\<dots> = {0..<cols} \<times> {by..min (by + 1) (rows - 1)}"
  proof (intro equalityI subsetI)
    fix p assume "p \<in> (\<Union>bx\<in>set (stepTwo cols). {bx..bx + 1} \<times> {by..min (by + 1) (rows - 1)})"
    then obtain bx where bx: "bx \<in> set (stepTwo cols)"
      and p: "p \<in> {bx..bx + 1} \<times> {by..min (by + 1) (rows - 1)}" by blast
    from bx have b3: "0 \<le> bx" "bx < cols" "bx mod 2 = 0" by (simp_all add: set_stepTwo)
    with assms(1) have "bx + 1 < cols" by presburger
    with b3 p show "p \<in> {0..<cols} \<times> {by..min (by + 1) (rows - 1)}" by auto
  next
    fix p assume p: "p \<in> {0..<cols} \<times> {by..min (by + 1) (rows - 1)}"
    let ?b = "fst p - fst p mod 2"
    from p have x: "0 \<le> fst p" "fst p < cols" by auto
    have m: "?b mod 2 = 0" "0 \<le> ?b" "?b \<le> fst p" "fst p \<le> ?b + 1"
      using x(1) by presburger+
    then have "?b \<in> set (stepTwo cols)" using x unfolding set_stepTwo by simp
    moreover have "p \<in> {?b..?b + 1} \<times> {by..min (by + 1) (rows - 1)}"
      using p m by (cases p) auto
    ultimately show "p \<in> (\<Union>bx\<in>set (stepTwo cols). {bx..bx + 1} \<times> {by..min (by + 1) (rows - 1)})"
      by blast
  qed
  finally show ?thesis .
qed

lemma distinct_checker2Row:
  assumes "cols mod 2 = 0" and "by < rows"
  shows "distinct (checker2Row cols rows by)"
proof -
  have "distinct (concat (map (checker2Block cols rows by) bs))"
    if "distinct bs" "set bs = set (stepTwo cols)" for bs
  proof (rule distinct_concat_map)
    show "distinct bs" by (rule that(1))
    show "distinct (checker2Block cols rows by bx)" if "bx \<in> set bs" for bx
      using distinct_checker2Block[OF assms(1)] that \<open>set bs = set (stepTwo cols)\<close> by simp
    fix a b assume ab: "a \<in> set bs" "b \<in> set bs" "a \<noteq> b"
    then have s: "a \<in> set (stepTwo cols)" "b \<in> set (stepTwo cols)"
      using \<open>set bs = set (stepTwo cols)\<close> by simp_all
    then have "a mod 2 = 0" "b mod 2 = 0" by (simp_all add: set_stepTwo)
    with ab(3) have "a + 1 < b \<or> b + 1 < a" by presburger
    then show "set (checker2Block cols rows by a) \<inter> set (checker2Block cols rows by b) = {}"
      unfolding set_checker2Block[OF assms(1) s(1) assms(2)]
        set_checker2Block[OF assms(1) s(2) assms(2)] by auto
  qed
  from this[of "stepTwo cols"] this[of "rev (stepTwo cols)"] distinct_stepTwo[of cols]
  show ?thesis by (simp add: checker2Row_def Let_def)
qed

text \<open>For an even number of columns the 2x2-block generator returns a permutation of
  the grid, for every number of rows; the completion loop adds nothing.\<close>

lemma buildCheckerboard2x2Path_even_cols:
  assumes "cols mod 2 = 0"
  shows "isGridPermutation cols rows (buildCheckerboard2x2Path cols rows)"
proof -
  have d: "distinct (checker2Blocks cols rows)"
    unfolding checker2Blocks_def
  proof (rule distinct_concat_map)
    show "distinct (stepTwo rows)" by (rule distinct_stepTwo)
    show "distinct (checker2Row cols rows b0)" if "b0 \<in> set (stepTwo rows)" for b0
      using that distinct_checker2Row[OF assms, of b0 rows] by (simp add: set_stepTwo)
    fix a b assume "a \<in> set (stepTwo rows)" "b \<in> set (stepTwo rows)" "a \<noteq> b"
    then have ab: "a mod 2 = 0" "b mod 2 = 0" "a \<noteq> b" "a < rows" "b < rows"
      by (simp_all add: set_stepTwo)
    then have "a + 1 < b \<or> b + 1 < a" by presburger
    then show "set (checker2Row cols rows a) \<inter> set (checker2Row cols rows b) = {}"
      unfolding set_checker2Row[OF assms ab(4)] set_checker2Row[OF assms ab(5)] by auto
  qed
  have s: "set (checker2Blocks cols rows) = gridCells cols rows"
  proof (intro equalityI subsetI)
    fix p assume "p \<in> set (checker2Blocks cols rows)"
    then obtain b0 where b0: "b0 \<in> set (stepTwo rows)" and p: "p \<in> set (checker2Row cols rows b0)"
      unfolding checker2Blocks_def by auto
    from b0 have "0 \<le> b0" "b0 < rows" by (simp_all add: set_stepTwo)
    with p show "p \<in> gridCells cols rows"
      unfolding set_checker2Row[OF assms \<open>b0 < rows\<close>] by (auto simp: gridCells_def inBounds_def)
  next
    fix p assume "p \<in> gridCells cols rows"
    then obtain x y where p: "p = (x, y)" and b: "0 \<le> x" "x < cols" "0 \<le> y" "y < rows"
      by (cases p) (auto simp: gridCells_def inBounds_def)
    let ?b = "y - y mod 2"
    have m: "?b mod 2 = 0" "0 \<le> ?b" "?b \<le> y" "y \<le> ?b + 1"
      using b(3) by presburger+
    then have in2: "?b \<in> set (stepTwo rows)" using b by (simp add: set_stepTwo)
    have lt: "?b < rows" using m b by simp
    have "p \<in> set (checker2Row cols rows ?b)"
      unfolding set_checker2Row[OF assms lt] p using b m by auto
    with in2 show "p \<in> set (checker2Blocks cols rows)"
      unfolding checker2Blocks_def by auto
  qed
  have "fillMissing (checker2Blocks cols rows) (buildSnakePathBase cols rows)
      = checker2Blocks cols rows"
    by (rule fillMissing_full) (simp add: s set_buildSnakePathBase)
  then have "buildCheckerboard2x2Path cols rows = checker2Blocks cols rows"
    by (simp add: buildCheckerboard2x2Path_def Let_def)
  with d s show ?thesis by (simp add: isGridPermutation_def)
qed

lemma not_distinct_concat_map:
  "x \<in> set xs \<Longrightarrow> \<not> distinct (f x) \<Longrightarrow> \<not> distinct (concat (map f xs))"
  by (induction xs) auto

text \<open>For an odd number of columns (and at least one row) the 2x2-block generator
  returns a path with a repeated cell: the block of the last column is traversed with
  \<open>xs = [cols - 1, cols - 1]\<close>.\<close>

lemma buildCheckerboard2x2Path_odd_cols:
  assumes "cols mod 2 = 1" and "0 < cols" and "0 < rows"
  shows "\<not> distinct (buildCheckerboard2x2Path cols rows)"
proof -
  have bx: "cols - 1 \<in> set (stepTwo cols)"
    using assms(1,2) unfolding set_stepTwo by clarsimp presburger
  have b0: "0 \<in> set (stepTwo rows)" using assms(3) by (simp add: set_stepTwo)
  have two: "\<not> distinct (concat (map (\<lambda>y. map (\<lambda>x. (x, y)) [c, c]) ys))"
    if "ys \<noteq> []" for ys :: "int list" and c :: int
    using that by (cases ys) auto
  have ne: "[0..min 1 (rows - 1)] \<noteq> []" using assms(3) by (simp add: upto.simps)
  have blk: "\<not> distinct (checker2Block cols rows 0 (cols - 1))"
    using two[OF ne] two[of "rev [0..min 1 (rows - 1)]"] ne
    by (simp add: checker2Block_def Let_def)
  have row: "\<not> distinct (checker2Row cols rows 0)"
  proof -
    have "\<not> distinct (concat (map (checker2Block cols rows 0) bs))"
      if "cols - 1 \<in> set bs" for bs
      using that blk by (rule not_distinct_concat_map)
    from this[of "stepTwo cols"] this[of "rev (stepTwo cols)"] bx
    show ?thesis by (simp add: checker2Row_def Let_def)
  qed
  have all: "\<not> distinct (checker2Blocks cols rows)"
    unfolding checker2Blocks_def using b0 row by (rule not_distinct_concat_map)
  from fillMissing_no_new_duplicate[of "checker2Blocks cols rows" "buildSnakePathBase cols rows"]
  obtain ext where "fillMissing (checker2Blocks cols rows) (buildSnakePathBase cols rows)
      = checker2Blocks cols rows @ ext" by blast
  with all show ?thesis
    by (simp add: buildCheckerboard2x2Path_def Let_def)
qed

text \<open>The anchors of the Zip example layout lie on the 6x6 serpentine at the indices
  \<open>0, 2, ..., 22\<close>, numbered along it.\<close>

lemma zipAnchors_on_serpentine:
  "zipAnchors = map (\<lambda>n. (buildSnakePathBase 6 6 ! (2 * n), int n + 1)) [0..<12]"
  by code_simp

subsection \<open>C3: the Hamiltonian invariant of the template generators\<close>

text \<open>On the 6x6 grid of every preset the 2x2-block generator returns a permutation of
  the grid.\<close>

lemma buildCheckerboard2x2Path_6x6: "hamiltonian 6 6 (buildCheckerboard2x2Path 6 6)"
  by code_simp

text \<open>
  C3. Every template generator returns, for every grid size, a path of length
  \<open>cols * rows\<close> that holds each cell exactly once, the completion loop never adding a
  duplicate. The serpentine and \<open>buildBlockSnakePath\<close> do
  (\<open>buildSnakePathBase_permutation\<close>, \<open>buildBlockSnakePath_permutation\<close>), and the
  completion loop adds only cells that are missing, each once
  (\<open>fillMissing_no_new_duplicate\<close>). \<open>buildCheckerboard2x2Path\<close> does when \<open>cols\<close> is
  even (\<open>buildCheckerboard2x2Path_even_cols\<close>) and does not when \<open>cols\<close> is odd
  (\<open>buildCheckerboard2x2Path_odd_cols\<close>): its last block column has \<open>xs = [cols - 1, cols - 1]\<close>, and the loop over \<open>xs\<close> pushes
  each of its cells twice. For \<open>cols = 3\<close>, \<open>rows = 2\<close> the path has 8 entries for 6
  cells, \<open>(2,1)\<close> and \<open>(2,0)\<close> twice; the completion loop finds no cell missing and
  the path is returned as it is.
\<close>

theorem buildCheckerboard2x2Path_duplicates:
  "buildCheckerboard2x2Path 3 2
     = [(0, 0), (1, 0), (0, 1), (1, 1), (2, 1), (2, 1), (2, 0), (2, 0)]
   \<and> length (buildCheckerboard2x2Path 3 2) = 8
   \<and> \<not> distinct (buildCheckerboard2x2Path 3 2)
   \<and> \<not> hamiltonian 3 2 (buildCheckerboard2x2Path 3 2)"
  by code_simp

subsection \<open>C8: the transforms\<close>

lemma rotate_even_image:
  assumes "rot mod 4 = 0 \<or> rot mod 4 = 2"
  shows "(\<lambda>pt. rotatePoint pt rot cols rows) ` gridCells cols rows = gridCells cols rows"
    and "inj (\<lambda>pt. rotatePoint pt rot cols rows)"
proof -
  let ?f = "\<lambda>pt. rotatePoint pt rot cols rows"
  have invol: "?f (?f p) = p" for p using assms by (cases p) auto
  have into: "?f p \<in> gridCells cols rows" if "p \<in> gridCells cols rows" for p
    using that assms by (cases p) (auto simp: gridCells_def inBounds_def)
  show "?f ` gridCells cols rows = gridCells cols rows"
  proof (intro equalityI subsetI)
    fix q assume "q \<in> ?f ` gridCells cols rows"
    then show "q \<in> gridCells cols rows" using into by auto
  next
    fix q assume "q \<in> gridCells cols rows"
    then have "?f q \<in> gridCells cols rows" by (rule into)
    then have "?f (?f q) \<in> ?f ` gridCells cols rows" by (rule imageI)
    then show "q \<in> ?f ` gridCells cols rows" by (simp only: invol)
  qed
  show "inj ?f" by (rule inj_on_inverseI[where g = ?f]) (rule invol)
qed

lemma rotate_odd_image:
  assumes "rot mod 4 = 1 \<or> rot mod 4 = 3"
  shows "(\<lambda>pt. rotatePoint pt rot cols rows) ` gridCells cols rows = gridCells rows cols"
    and "inj (\<lambda>pt. rotatePoint pt rot cols rows)"
proof -
  let ?f = "\<lambda>pt. rotatePoint pt rot cols rows"
  let ?g = "\<lambda>pt :: cell. if rot mod 4 = 1 then (cols - 1 - snd pt, fst pt)
                        else (snd pt, rows - 1 - fst pt)"
  have inv: "?g (?f p) = p" for p using assms by (cases p) auto
  have inv': "?f (?g p) = p" for p using assms by (cases p) auto
  have into: "?f p \<in> gridCells rows cols" if "p \<in> gridCells cols rows" for p
    using that assms by (cases p) (auto simp: gridCells_def inBounds_def)
  have bk: "?g p \<in> gridCells cols rows" if "p \<in> gridCells rows cols" for p
    using that assms by (cases p) (auto simp: gridCells_def inBounds_def)
  show "?f ` gridCells cols rows = gridCells rows cols"
  proof (intro equalityI subsetI)
    fix q assume "q \<in> ?f ` gridCells cols rows"
    then show "q \<in> gridCells rows cols" using into by auto
  next
    fix q assume "q \<in> gridCells rows cols"
    then have "?g q \<in> gridCells cols rows" by (rule bk)
    then have "?f (?g q) \<in> ?f ` gridCells cols rows" by (rule imageI)
    then show "q \<in> ?f ` gridCells cols rows" by (simp only: inv')
  qed
  show "inj ?f" by (rule inj_on_inverseI[where g = ?g]) (rule inv)
qed

lemma mirrorH_image:
  "(\<lambda>pt. (cols - 1 - fst pt, snd pt)) ` gridCells cols rows = gridCells cols rows"
  and mirrorH_inj: "inj (\<lambda>pt :: cell. (cols - 1 - fst pt, snd pt))"
proof -
  let ?f = "\<lambda>pt :: cell. (cols - 1 - fst pt, snd pt)"
  have invol: "?f (?f p) = p" for p by simp
  have into: "?f p \<in> gridCells cols rows" if "p \<in> gridCells cols rows" for p
    using that by (auto simp: gridCells_def inBounds_def)
  show "?f ` gridCells cols rows = gridCells cols rows"
  proof (intro equalityI subsetI)
    fix q assume "q \<in> ?f ` gridCells cols rows"
    then show "q \<in> gridCells cols rows" using into by auto
  next
    fix q :: cell assume "q \<in> gridCells cols rows"
    then have "?f q \<in> gridCells cols rows" by (rule into)
    then have "?f (?f q) \<in> ?f ` gridCells cols rows" by (rule imageI)
    then show "q \<in> ?f ` gridCells cols rows" by (simp only: invol)
  qed
  show "inj ?f" by (rule inj_on_inverseI[where g = ?f]) (rule invol)
qed

lemma mirrorV_image:
  "(\<lambda>pt. (fst pt, rows - 1 - snd pt)) ` gridCells cols rows = gridCells cols rows"
  and mirrorV_inj: "inj (\<lambda>pt :: cell. (fst pt, rows - 1 - snd pt))"
proof -
  let ?f = "\<lambda>pt :: cell. (fst pt, rows - 1 - snd pt)"
  have invol: "?f (?f p) = p" for p by simp
  have into: "?f p \<in> gridCells cols rows" if "p \<in> gridCells cols rows" for p
    using that by (auto simp: gridCells_def inBounds_def)
  show "?f ` gridCells cols rows = gridCells cols rows"
  proof (intro equalityI subsetI)
    fix q assume "q \<in> ?f ` gridCells cols rows"
    then show "q \<in> gridCells cols rows" using into by auto
  next
    fix q :: cell assume "q \<in> gridCells cols rows"
    then have "?f q \<in> gridCells cols rows" by (rule into)
    then have "?f (?f q) \<in> ?f ` gridCells cols rows" by (rule imageI)
    then show "q \<in> ?f ` gridCells cols rows" by (simp only: invol)
  qed
  show "inj ?f" by (rule inj_on_inverseI[where g = ?f]) (rule invol)
qed

lemma map_permutation:
  assumes "isGridPermutation c r path" and "inj f" and "f ` gridCells c r = gridCells c' r'"
  shows "isGridPermutation c' r' (map f path)"
  using assms by (auto simp: isGridPermutation_def distinct_map intro: inj_on_subset)

text \<open>
  C8, as stated, for every grid: a rotation by 90 degrees of a permutation of the
  grid's cells is again one. It fails on a grid that is not square, since
  \<open>rotatePoint\<close> maps into the transposed grid: on the 2x1 grid the cell \<open>(0,0)\<close> goes
  to \<open>(0,1)\<close>, which is outside.
\<close>

theorem rotate_not_closed_counterexample:
  "isGridPermutation 2 1 [(0, 0), (1, 0)]
   \<and> rotatePath 1 2 1 [(0, 0), (1, 0)] = [(0, 1), (0, 0)]
   \<and> \<not> isGridPermutation 2 1 (rotatePath 1 2 1 [(0, 0), (1, 0)])"
proof -
  have g: "gridCells 2 1 = {(0, 0), (1, 0)}"
    unfolding gridCells_code by code_simp
  have r: "rotatePath 1 2 1 [(0, 0), (1, 0)] = [(0, 1), (0, 0)]"
    by (simp add: rotatePath_def)
  have "(0, 1) \<notin> gridCells 2 1" by (simp add: gridCells_def inBounds_def)
  then have "\<not> isGridPermutation 2 1 [(0, 1), (0, 0)]"
    by (auto simp: isGridPermutation_def)
  then have c: "\<not> isGridPermutation 2 1 (rotatePath 1 2 1 [(0, 0), (1, 0)])"
    unfolding r .
  have a: "isGridPermutation 2 1 [(0, 0), (1, 0)]"
    by (simp add: isGridPermutation_def g)
  from a r c show ?thesis by blast
qed

text \<open>
  C8, amended: for every path that is a permutation of the cells of the cols x rows
  grid, the rotations by 0 and 180 degrees, the horizontal mirror, the vertical
  mirror and the reversal yield a path of the same length that is again a
  permutation of the cells of that grid; so do the rotations by 90 and 270 degrees
  when \<open>cols = rows\<close>, and in general they yield a permutation of the cells of the
  transposed rows x cols grid.
\<close>

theorem transforms_closed:
  assumes "isGridPermutation cols rows path"
  shows "length (rotatePath rot cols rows path) = length path
       \<and> (rot mod 4 = 0 \<or> rot mod 4 = 2 \<or> cols = rows \<longrightarrow>
            isGridPermutation cols rows (rotatePath rot cols rows path))
       \<and> (rot mod 4 = 1 \<or> rot mod 4 = 3 \<longrightarrow>
            isGridPermutation rows cols (rotatePath rot cols rows path))
       \<and> length (mirrorH cols path) = length path
       \<and> isGridPermutation cols rows (mirrorH cols path)
       \<and> length (mirrorV rows path) = length path
       \<and> isGridPermutation cols rows (mirrorV rows path)
       \<and> length (rev path) = length path
       \<and> isGridPermutation cols rows (rev path)"
proof -
  have even_rot: "isGridPermutation cols rows (rotatePath rot cols rows path)"
    if "rot mod 4 = 0 \<or> rot mod 4 = 2"
    unfolding rotatePath_def
    using assms rotate_even_image(2)[OF that] rotate_even_image(1)[OF that]
    by (rule map_permutation)
  have odd_rot: "isGridPermutation rows cols (rotatePath rot cols rows path)"
    if "rot mod 4 = 1 \<or> rot mod 4 = 3"
    unfolding rotatePath_def
    using assms rotate_odd_image(2)[OF that] rotate_odd_image(1)[OF that]
    by (rule map_permutation)
  have cases4: "rot mod 4 = 0 \<or> rot mod 4 = 1 \<or> rot mod 4 = 2 \<or> rot mod 4 = 3"
    by presburger
  have square: "isGridPermutation cols rows (rotatePath rot cols rows path)" if "cols = rows"
    using cases4 even_rot odd_rot that by auto
  have mh: "isGridPermutation cols rows (mirrorH cols path)"
    unfolding mirrorH_def using assms mirrorH_inj mirrorH_image by (rule map_permutation)
  have mv: "isGridPermutation cols rows (mirrorV rows path)"
    unfolding mirrorV_def using assms mirrorV_inj mirrorV_image by (rule map_permutation)
  have rv: "isGridPermutation cols rows (rev path)"
    using assms by (simp add: isGridPermutation_def)
  show ?thesis
    using even_rot odd_rot square mh mv rv
    by (auto simp: rotatePath_def mirrorH_def mirrorV_def)
qed

theorem transforms_closed_witness:
  "isGridPermutation 3 2 (buildSnakePathBase 3 2)
   \<and> rotatePath 2 3 2 (buildSnakePathBase 3 2) = [(2, 1), (1, 1), (0, 1), (0, 0), (1, 0), (2, 0)]
   \<and> isGridPermutation 3 2 (rotatePath 2 3 2 (buildSnakePathBase 3 2))
   \<and> isGridPermutation 2 3 (rotatePath 1 3 2 (buildSnakePathBase 3 2))
   \<and> isGridPermutation 3 2 (mirrorH 3 (buildSnakePathBase 3 2))
   \<and> isGridPermutation 3 2 (mirrorV 2 (buildSnakePathBase 3 2))
   \<and> isGridPermutation 3 2 (rev (buildSnakePathBase 3 2))"
proof -
  have r: "rotatePath 2 3 2 (buildSnakePathBase 3 2) = [(2, 1), (1, 1), (0, 1), (0, 0), (1, 0), (2, 0)]"
    by code_simp
  show ?thesis
    using transforms_closed[OF buildSnakePathBase_permutation[of 3 2], of 2]
      transforms_closed[OF buildSnakePathBase_permutation[of 3 2], of 1]
      buildSnakePathBase_permutation[of 3 2] r
    by simp
qed

section \<open>Randomness, walls and anchors\<close>

text \<open>
  \<open>Math.random()\<close> is modelled by the stream of the values its successive calls
  return, with the number of calls made so far passed along; each value lies in
  \<open>[0, 1)\<close>. Theorems hold for every such stream. \<open>Math.floor(Math.random() * n)\<close> is
  computed over the reals; for \<open>n\<close> below \<open>2^53\<close> the rounded product of the script
  also stays below \<open>n\<close>, so both give an index in \<open>[0, n)\<close>.
\<close>

type_synonym rng = "nat \<Rightarrow> real"

definition randomOk :: "rng \<Rightarrow> bool" where
  "randomOk rs = (\<forall>k. 0 \<le> rs k \<and> rs k < 1)"

definition floorRandom :: "rng \<Rightarrow> nat \<Rightarrow> int \<Rightarrow> int" where
  "floorRandom rs k n = \<lfloor>rs k * real_of_int n\<rfloor>"

subsection \<open>Walls\<close>

text \<open>\<open>snake.findIndex(s => keyOf(s.x, s.y) === a)\<close>: the first index, or \<open>-1\<close>.\<close>

fun findIndex :: "cell list \<Rightarrow> cell \<Rightarrow> int" where
  "findIndex [] a = -1"
| "findIndex (s # ss) a =
     (if s = a then 0 else (let i = findIndex ss a in if i = -1 then -1 else i + 1))"

text \<open>The neighbour across a wall: right of the cell, or below it.\<close>

fun otherEnd :: "wall \<Rightarrow> cell" where
  "otherEnd ((x, y), WRight) = (x + 1, y)"
| "otherEnd ((x, y), WDown) = (x, y + 1)"

text \<open>One edge of the double loop: \<open>consecutive\<close> is computed, and only when it is
  false is \<open>Math.random()\<close> called and compared with \<open>wallPct\<close>.\<close>

definition edgeStep :: "cell list \<Rightarrow> real \<Rightarrow> rng \<Rightarrow> wall \<Rightarrow> wall set \<times> nat \<Rightarrow> wall set \<times> nat" where
  "edgeStep snake wallPct rs w st =
     (let i = findIndex snake (fst w); j = findIndex snake (otherEnd w);
          consecutive = (\<bar>i - j\<bar> = 1)
      in if \<not> consecutive
         then (if rs (snd st) < wallPct then (insert w (fst st), Suc (snd st))
               else (fst st, Suc (snd st)))
         else st)"

definition cellStep :: "int \<Rightarrow> int \<Rightarrow> cell list \<Rightarrow> real \<Rightarrow> rng \<Rightarrow> wall set \<times> nat \<Rightarrow> cell \<Rightarrow> wall set \<times> nat" where
  "cellStep cols rows snake wallPct rs st c =
     (let st1 = (if fst c < cols - 1 then edgeStep snake wallPct rs (c, WRight) st else st)
      in if snd c < rows - 1 then edgeStep snake wallPct rs (c, WDown) st1 else st1)"

text \<open>\<open>buildShortcutWallsFromSnake(snake, wallPct)\<close>: \<open>walls.clear()\<close>, then the loops over
  \<open>y\<close> and \<open>x\<close>. The result is the new state and the number of \<open>Math.random()\<close> calls
  made so far.\<close>

definition buildShortcutWallsFromSnake :: "cell list \<Rightarrow> real \<Rightarrow> rng \<Rightarrow> nat \<Rightarrow> game \<Rightarrow> game \<times> nat" where
  "buildShortcutWallsFromSnake snake wallPct rs k g =
     (let st = foldl (cellStep (COLS g) (ROWS g) snake wallPct rs) ({}, k)
                 (concat (map (\<lambda>y. map (\<lambda>x. (x, y)) [0..COLS g - 1]) [0..ROWS g - 1]))
      in (g\<lparr>walls := fst st\<rparr>, snd st))"

subsection \<open>Anchors\<close>

text \<open>The Fisher-Yates loop of \<open>pickIndicesWithMinGap\<close>, \<open>i\<close> running down to 1.\<close>

fun shuffle_loop :: "rng \<Rightarrow> nat \<Rightarrow> nat list \<times> nat \<Rightarrow> nat list \<times> nat" where
  "shuffle_loop rs 0 st = st"
| "shuffle_loop rs (Suc i) (pool, k) =
     (let j = nat (floorRandom rs k (int (Suc i) + 1))
      in shuffle_loop rs i (pool[Suc i := pool ! j, j := pool ! Suc i], Suc k))"

text \<open>The greedy loop over the pool, with its \<open>break\<close>.\<close>

fun pick_loop :: "int \<Rightarrow> int \<Rightarrow> nat list \<Rightarrow> nat list \<Rightarrow> nat list" where
  "pick_loop Knum minGap [] picks = picks"
| "pick_loop Knum minGap (idx # rest) picks =
     (if int (length picks) = Knum then picks
      else if list_all (\<lambda>p. \<bar>int p - int idx\<bar> \<ge> minGap) picks
           then pick_loop Knum minGap rest (picks @ [idx])
           else pick_loop Knum minGap rest picks)"

text \<open>The fill loop: \<open>fill\<close> runs over the pool while fewer than \<open>K\<close> are picked.\<close>

fun fill_loop :: "int \<Rightarrow> nat list \<Rightarrow> nat list \<Rightarrow> nat list" where
  "fill_loop Knum [] picks = picks"
| "fill_loop Knum (p # rest) picks =
     (if int (length picks) < Knum
      then fill_loop Knum rest (if p \<in> set picks then picks else picks @ [p])
      else picks)"

definition pickIndicesWithMinGap :: "nat \<Rightarrow> int \<Rightarrow> int \<Rightarrow> rng \<Rightarrow> nat \<Rightarrow> nat list \<times> nat" where
  "pickIndicesWithMinGap len Knum minGap rs k =
     (let st = shuffle_loop rs (len - 1) ([0..<len], k);
          picks = pick_loop Knum minGap (fst st) [];
          picks' = fill_loop Knum (fst st) picks
      in (sort picks', snd st))"

text \<open>The remainder operator \<open>%\<close> of JavaScript: the sign of the dividend.\<close>

definition jsRem :: "int \<Rightarrow> int \<Rightarrow> int" where
  "jsRem a b = sgn a * (\<bar>a\<bar> mod \<bar>b\<bar>)"

text \<open>
  The numbering loop of \<open>generateLevel\<close> and \<open>generateZip6x6\<close>, for \<open>j\<close> from 0 while
  \<open>j < Knum\<close>. When \<open>idxs[j]\<close> or \<open>snake[idx]\<close> is \<open>undefined\<close>, the destructuring
  \<open>const { x, y } = snake[idx]\<close> raises a TypeError.
\<close>

fun place_loop :: "cell list \<Rightarrow> nat list \<Rightarrow> int \<Rightarrow> int \<Rightarrow> nat list \<Rightarrow> game \<Rightarrow> js_error option \<times> game" where
  "place_loop snake idxs Knum shift [] g = (None, g)"
| "place_loop snake idxs Knum shift (j # js) g =
     (if j < length idxs \<and> idxs ! j < length snake
      then let idx = idxs ! j;
               num = jsRem (int j - shift + Knum) Knum + 1;
               c = snake ! idx
           in place_loop snake idxs Knum shift js
                (g\<lparr>anchors := anchors g @ [(c, num)], anchorsMap := (anchorsMap g)(c \<mapsto> num)\<rparr>)
      else (Some TypeError, g))"

definition placeAnchors :: "cell list \<Rightarrow> nat list \<Rightarrow> int \<Rightarrow> int \<Rightarrow> game \<Rightarrow> js_error option \<times> game" where
  "placeAnchors snake idxs Knum shift g = place_loop snake idxs Knum shift [0..<nat Knum] g"


subsection \<open>C4: walls never lie on the generating path\<close>

lemma findIndex_ge: "- 1 \<le> findIndex snake a"
  by (induction snake) (auto simp: Let_def)

lemma findIndex_nth:
  "distinct snake \<Longrightarrow> i < length snake \<Longrightarrow> findIndex snake (snake ! i) = int i"
proof (induction snake arbitrary: i)
  case Nil
  then show ?case by simp
next
  case (Cons s ss)
  show ?case
  proof (cases i)
    case 0
    then show ?thesis by simp
  next
    case (Suc i')
    with Cons.prems have "ss ! i' \<in> set ss" "i' < length ss" by auto
    with Cons.prems have ne: "s \<noteq> ss ! i'" by auto
    from Cons.IH[of i'] Cons.prems Suc have "findIndex ss (ss ! i') = int i'" by simp
    with ne Suc show ?thesis by (simp add: Let_def)
  qed
qed

definition offPath :: "cell list \<Rightarrow> wall set \<Rightarrow> bool" where
  "offPath snake W = (\<forall>w\<in>W. \<bar>findIndex snake (fst w) - findIndex snake (otherEnd w)\<bar> \<noteq> 1)"

lemma edgeStep_offPath:
  "offPath snake (fst st) \<Longrightarrow> offPath snake (fst (edgeStep snake wallPct rs w st))"
  by (auto simp: edgeStep_def offPath_def Let_def)

lemma cellStep_offPath:
  "offPath snake (fst st) \<Longrightarrow> offPath snake (fst (cellStep cols rows snake wallPct rs st c))"
  by (auto simp: cellStep_def Let_def intro!: edgeStep_offPath)

lemma foldl_cellStep_offPath:
  "offPath snake (fst st) \<Longrightarrow>
   offPath snake (fst (foldl (cellStep cols rows snake wallPct rs) st cs))"
proof (induction cs arbitrary: st)
  case Nil
  then show ?case by simp
next
  case (Cons c cs)
  show ?case using Cons.IH[OF cellStep_offPath[OF Cons.prems]] by simp
qed

lemma buildShortcutWalls_offPath:
  "offPath snake (walls (fst (buildShortcutWallsFromSnake snake wallPct rs k g)))"
proof -
  have "offPath snake (fst ({}, k))" by (simp add: offPath_def)
  from foldl_cellStep_offPath[OF this] show ?thesis
    by (simp add: buildShortcutWallsFromSnake_def Let_def)
qed

lemma offPath_consecutive:
  assumes "offPath snake W" and "distinct snake" and "Suc i < length snake" and "w \<in> W"
  shows "\<not> (snake ! i = fst w \<and> snake ! Suc i = otherEnd w)"
    and "\<not> (snake ! Suc i = fst w \<and> snake ! i = otherEnd w)"
proof -
  have a: "findIndex snake (snake ! i) = int i" "findIndex snake (snake ! Suc i) = int (Suc i)"
    using assms(2,3) by (simp_all add: findIndex_nth)
  from assms(1,4) have "\<bar>findIndex snake (fst w) - findIndex snake (otherEnd w)\<bar> \<noteq> 1"
    by (auto simp: offPath_def)
  then show "\<not> (snake ! i = fst w \<and> snake ! Suc i = otherEnd w)"
    and "\<not> (snake ! Suc i = fst w \<and> snake ! i = otherEnd w)"
    using a by auto
qed

lemma blockedByWall_wall:
  "blockedByWall W a b \<Longrightarrow> \<exists>w\<in>W. (fst w = a \<and> otherEnd w = b) \<or> (fst w = b \<and> otherEnd w = a)"
proof -
  assume bl: "blockedByWall W a b"
  obtain x0 y0 nx ny where ab: "a = (x0, y0)" "b = (nx, ny)" by (cases a; cases b) auto
  from bl have "(nx = x0 + 1 \<and> ny = y0 \<and> ((x0, y0), WRight) \<in> W)
      \<or> (x0 = nx + 1 \<and> ny = y0 \<and> ((nx, ny), WRight) \<in> W)
      \<or> (nx = x0 \<and> ny = y0 + 1 \<and> ((x0, y0), WDown) \<in> W)
      \<or> (nx = x0 \<and> y0 = ny + 1 \<and> ((nx, ny), WDown) \<in> W)"
    unfolding ab by (auto simp: Let_def split: if_splits)
  then show ?thesis
  proof (elim disjE conjE)
    assume "nx = x0 + 1" "ny = y0" "((x0, y0), WRight) \<in> W"
    then show ?thesis unfolding ab by (intro bexI[of _ "((x0, y0), WRight)"]) auto
  next
    assume "x0 = nx + 1" "ny = y0" "((nx, ny), WRight) \<in> W"
    then show ?thesis unfolding ab by (intro bexI[of _ "((nx, ny), WRight)"]) auto
  next
    assume "nx = x0" "ny = y0 + 1" "((x0, y0), WDown) \<in> W"
    then show ?thesis unfolding ab by (intro bexI[of _ "((x0, y0), WDown)"]) auto
  next
    assume "nx = x0" "y0 = ny + 1" "((nx, ny), WDown) \<in> W"
    then show ?thesis unfolding ab by (intro bexI[of _ "((nx, ny), WDown)"]) auto
  qed
qed


text \<open>
  C4. For every generating path that is a permutation of the grid's cells and every
  wall probability, after \<open>buildShortcutWallsFromSnake\<close> no wall lies between two
  cells that are consecutive in the path: no wall has the cells at indices \<open>i\<close> and
  \<open>i + 1\<close> as its two ends, in either order, so \<open>blockedByWall\<close> never blocks a step
  of the path, forwards or backwards. The wall set is cleared and rebuilt: the result
  does not depend on the walls before the call.
\<close>

theorem shortcut_walls_off_path:
  assumes "isGridPermutation (COLS g) (ROWS g) snake"
  shows "(\<forall>w \<in> walls (fst (buildShortcutWallsFromSnake snake wallPct rs k g)).
            \<forall>i. Suc i < length snake \<longrightarrow>
              \<not> (snake ! i = fst w \<and> snake ! Suc i = otherEnd w)
              \<and> \<not> (snake ! Suc i = fst w \<and> snake ! i = otherEnd w))
       \<and> (\<forall>i. Suc i < length snake \<longrightarrow>
              \<not> blockedByWall (walls (fst (buildShortcutWallsFromSnake snake wallPct rs k g)))
                    (snake ! i) (snake ! Suc i)
              \<and> \<not> blockedByWall (walls (fst (buildShortcutWallsFromSnake snake wallPct rs k g)))
                    (snake ! Suc i) (snake ! i))
       \<and> (\<forall>W0. walls (fst (buildShortcutWallsFromSnake snake wallPct rs k (g\<lparr>walls := W0\<rparr>)))
              = walls (fst (buildShortcutWallsFromSnake snake wallPct rs k g)))"
proof -
  let ?W = "walls (fst (buildShortcutWallsFromSnake snake wallPct rs k g))"
  from assms have d: "distinct snake" by (simp add: isGridPermutation_def)
  have off: "offPath snake ?W" by (rule buildShortcutWalls_offPath)
  have one: "\<not> (snake ! i = fst w \<and> snake ! Suc i = otherEnd w)
              \<and> \<not> (snake ! Suc i = fst w \<and> snake ! i = otherEnd w)"
    if "w \<in> ?W" "Suc i < length snake" for w i
    using offPath_consecutive[OF off d that(2) that(1)] by simp
  have nb: "\<not> blockedByWall ?W (snake ! i) (snake ! Suc i)" if "Suc i < length snake" for i
  proof
    assume "blockedByWall ?W (snake ! i) (snake ! Suc i)"
    from blockedByWall_wall[OF this] obtain w where "w \<in> ?W"
      "(fst w = snake ! i \<and> otherEnd w = snake ! Suc i)
       \<or> (fst w = snake ! Suc i \<and> otherEnd w = snake ! i)" by blast
    with one[OF this(1) that] show False by auto
  qed
  have nb': "\<not> blockedByWall ?W (snake ! Suc i) (snake ! i)" if "Suc i < length snake" for i
  proof
    assume "blockedByWall ?W (snake ! Suc i) (snake ! i)"
    from blockedByWall_wall[OF this] obtain w where "w \<in> ?W"
      "(fst w = snake ! Suc i \<and> otherEnd w = snake ! i)
       \<or> (fst w = snake ! i \<and> otherEnd w = snake ! Suc i)" by blast
    with one[OF this(1) that] show False by auto
  qed
  have three: "walls (fst (buildShortcutWallsFromSnake snake wallPct rs k (g\<lparr>walls := W0\<rparr>))) = ?W"
    for W0 by (simp add: buildShortcutWallsFromSnake_def Let_def)
  show ?thesis
  proof (intro conjI ballI allI impI)
    fix w i assume "w \<in> ?W" "Suc i < length snake"
    then show "\<not> (snake ! i = fst w \<and> snake ! Suc i = otherEnd w)"
      and "\<not> (snake ! Suc i = fst w \<and> snake ! i = otherEnd w)"
      using one by blast+
  next
    fix i assume "Suc i < length snake"
    then show "\<not> blockedByWall ?W (snake ! i) (snake ! Suc i)"
      and "\<not> blockedByWall ?W (snake ! Suc i) (snake ! i)"
      by (rule nb, rule nb')
  next
    fix W0 show "walls (fst (buildShortcutWallsFromSnake snake wallPct rs k (g\<lparr>walls := W0\<rparr>))) = ?W"
      by (rule three)
  qed
qed

text \<open>On the 2x2 layout with the serpentine, probability 1 and \<open>Math.random()\<close>
  returning 0: the only edge off the path, between \<open>(0,0)\<close> and \<open>(0,1)\<close>, is walled, and
  the three steps of the path stay open.\<close>

theorem shortcut_walls_off_path_witness:
  "isGridPermutation (COLS demo2x2) (ROWS demo2x2) (buildSnakePathBase 2 2)
   \<and> buildSnakePathBase 2 2 = [(0, 0), (1, 0), (1, 1), (0, 1)]
   \<and> walls (fst (buildShortcutWallsFromSnake (buildSnakePathBase 2 2) 1 (\<lambda>k. 0) 0 demo2x2))
       = {((0, 0), WDown)}
   \<and> \<not> blockedByWall (walls (fst (buildShortcutWallsFromSnake (buildSnakePathBase 2 2) 1 (\<lambda>k. 0) 0 demo2x2)))
         (buildSnakePathBase 2 2 ! 0) (buildSnakePathBase 2 2 ! Suc 0)
   \<and> \<not> blockedByWall (walls (fst (buildShortcutWallsFromSnake (buildSnakePathBase 2 2) 1 (\<lambda>k. 0) 0 demo2x2)))
         (buildSnakePathBase 2 2 ! 2) (buildSnakePathBase 2 2 ! Suc 2)"
proof -
  have p: "isGridPermutation (COLS demo2x2) (ROWS demo2x2) (buildSnakePathBase 2 2)"
    using buildSnakePathBase_permutation[of 2 2] by (simp add: demo2x2_def)
  have s: "buildSnakePathBase 2 2 = [(0, 0), (1, 0), (1, 1), (0, 1)]" by code_simp
  have w: "walls (fst (buildShortcutWallsFromSnake (buildSnakePathBase 2 2) 1 (\<lambda>k. 0) 0 demo2x2))
       = {((0, 0), WDown)}" by code_simp
  have l: "Suc 0 < length (buildSnakePathBase 2 2)" "Suc 2 < length (buildSnakePathBase 2 2)"
    by (simp_all add: s)
  have t: "\<forall>i. Suc i < length (buildSnakePathBase 2 2) \<longrightarrow>
      \<not> blockedByWall (walls (fst (buildShortcutWallsFromSnake (buildSnakePathBase 2 2) 1 (\<lambda>k. 0) 0 demo2x2)))
          (buildSnakePathBase 2 2 ! i) (buildSnakePathBase 2 2 ! Suc i)"
    using shortcut_walls_off_path[OF p, of 1 "\<lambda>k. 0" 0] by blast
  from t l have
    "\<not> blockedByWall (walls (fst (buildShortcutWallsFromSnake (buildSnakePathBase 2 2) 1 (\<lambda>k. 0) 0 demo2x2)))
         (buildSnakePathBase 2 2 ! 0) (buildSnakePathBase 2 2 ! Suc 0)"
    "\<not> blockedByWall (walls (fst (buildShortcutWallsFromSnake (buildSnakePathBase 2 2) 1 (\<lambda>k. 0) 0 demo2x2)))
         (buildSnakePathBase 2 2 ! 2) (buildSnakePathBase 2 2 ! Suc 2)"
    by blast+
  with p s w show ?thesis by (intro conjI)
qed


subsection \<open>C5: anchor placement\<close>

lemma floorRandom_range:
  assumes "randomOk rs" and "0 < n"
  shows "0 \<le> floorRandom rs k n" and "floorRandom rs k n < n"
proof -
  from assms(1) have r: "0 \<le> rs k" "rs k < 1" by (auto simp: randomOk_def)
  from r(1) assms(2) have "0 \<le> rs k * real_of_int n" by simp
  then show "0 \<le> floorRandom rs k n" by (simp add: floorRandom_def)
  from r(2) assms(2) have "rs k * real_of_int n < real_of_int n" by simp
  then show "floorRandom rs k n < n" by (simp add: floorRandom_def floor_less_iff)
qed

lemma shuffle_loop_props:
  assumes "randomOk rs" and "i < length pool \<or> i = 0"
  shows "length (fst (shuffle_loop rs i (pool, k))) = length pool
       \<and> set (fst (shuffle_loop rs i (pool, k))) = set pool
       \<and> distinct (fst (shuffle_loop rs i (pool, k))) = distinct pool
       \<and> snd (shuffle_loop rs i (pool, k)) = k + i"
  using assms(2)
proof (induction i arbitrary: pool k)
  case 0
  show ?case by simp
next
  case (Suc i)
  let ?j = "nat (floorRandom rs k (int (Suc i) + 1))"
  let ?pool = "pool[Suc i := pool ! ?j, ?j := pool ! Suc i]"
  from Suc.prems have i: "Suc i < length pool" by simp
  have "floorRandom rs k (int (Suc i) + 1) < int (Suc i) + 1"
    by (rule floorRandom_range(2)[OF assms(1)]) simp
  then have j: "?j < length pool" using i by linarith
  have l: "length ?pool = length pool" by simp
  have s: "set ?pool = set pool" using i j by (rule set_swap)
  have d: "distinct ?pool = distinct pool" using i j by (rule distinct_swap)
  have "i < length ?pool \<or> i = 0" using i by simp
  from Suc.IH[OF this, of "Suc k"] l s d show ?case by (simp add: Let_def)
qed

lemma pick_loop_props:
  assumes "distinct picks" and "distinct rest" and "set picks \<inter> set rest = {}"
  shows "distinct (pick_loop Knum minGap rest picks)
       \<and> set (pick_loop Knum minGap rest picks) \<subseteq> set picks \<union> set rest
       \<and> (int (length picks) \<le> Knum \<longrightarrow> int (length (pick_loop Knum minGap rest picks)) \<le> Knum)"
  using assms
proof (induction rest arbitrary: picks)
  case Nil
  then show ?case by simp
next
  case (Cons idx rest)
  have a: "distinct (picks @ [idx])" "distinct rest" "set (picks @ [idx]) \<inter> set rest = {}"
    using Cons.prems by auto
  have b: "distinct picks" "distinct rest" "set picks \<inter> set rest = {}"
    using Cons.prems by auto
  show ?case
    using Cons.IH[OF a] Cons.IH[OF b] b(1) by auto
qed

lemma fill_loop_props:
  assumes "distinct picks"
  shows "distinct (fill_loop Knum pool picks)
       \<and> set picks \<subseteq> set (fill_loop Knum pool picks)
       \<and> set (fill_loop Knum pool picks) \<subseteq> set picks \<union> set pool
       \<and> (int (length picks) \<le> Knum \<longrightarrow> int (length (fill_loop Knum pool picks)) \<le> Knum)
       \<and> (int (length (fill_loop Knum pool picks)) < Knum \<longrightarrow>
            set pool \<subseteq> set (fill_loop Knum pool picks))"
  using assms
proof (induction pool arbitrary: picks)
  case Nil
  then show ?case by simp
next
  case (Cons p pool)
  let ?picks = "if p \<in> set picks then picks else picks @ [p]"
  have d: "distinct ?picks" using Cons.prems by simp
  show ?case
  proof (cases "int (length picks) < Knum")
    case True
    have "int (length ?picks) \<le> Knum" using True by simp
    with Cons.IH[OF d] True show ?thesis by auto
  next
    case False
    with Cons.prems show ?thesis by auto
  qed
qed

lemma pickIndicesWithMinGap_props:
  assumes "randomOk rs" and "0 \<le> Knum" and "Knum \<le> int len"
  shows "length (fst (pickIndicesWithMinGap len Knum minGap rs k)) = nat Knum"
    and "distinct (fst (pickIndicesWithMinGap len Knum minGap rs k))"
    and "sorted (fst (pickIndicesWithMinGap len Knum minGap rs k))"
    and "set (fst (pickIndicesWithMinGap len Knum minGap rs k)) \<subseteq> {0..<len}"
    and "snd (pickIndicesWithMinGap len Knum minGap rs k) = k + (len - 1)"
proof -
  let ?pool = "fst (shuffle_loop rs (len - 1) ([0..<len], k))"
  let ?picks = "pick_loop Knum minGap ?pool []"
  let ?fill = "fill_loop Knum ?pool ?picks"
  have "len - 1 < length [0..<len] \<or> len - 1 = 0" by auto
  from shuffle_loop_props[OF assms(1) this, of k]
  have pool: "length ?pool = len" "set ?pool = {0..<len}" "distinct ?pool"
    and cnt: "snd (shuffle_loop rs (len - 1) ([0..<len], k)) = k + (len - 1)"
    by simp_all
  have pk: "distinct ?picks" "set ?picks \<subseteq> set ?pool" "int (length ?picks) \<le> Knum"
    using pick_loop_props[of "[]" ?pool Knum minGap] pool(3) assms(2) by auto
  from fill_loop_props[OF pk(1), of Knum ?pool] pk
  have fl: "distinct ?fill" "set ?fill \<subseteq> set ?pool" "int (length ?fill) \<le> Knum"
    "int (length ?fill) < Knum \<longrightarrow> set ?pool \<subseteq> set ?fill"
    by auto
  have "\<not> int (length ?fill) < Knum"
  proof
    assume lt: "int (length ?fill) < Knum"
    with fl have "set ?fill = set ?pool" by auto
    then have "card (set ?fill) = card (set ?pool)" by simp
    then have "length ?fill = len"
      using fl(1) pool by (simp add: distinct_card)
    with lt assms(3) show False by simp
  qed
  with fl(3) have len: "int (length ?fill) = Knum" by simp
  have eq: "fst (pickIndicesWithMinGap len Knum minGap rs k) = sort ?fill"
    by (simp add: pickIndicesWithMinGap_def Let_def)
  show "length (fst (pickIndicesWithMinGap len Knum minGap rs k)) = nat Knum"
    using len by (simp add: eq)
  show "distinct (fst (pickIndicesWithMinGap len Knum minGap rs k))"
    using fl(1) by (simp add: eq)
  show "sorted (fst (pickIndicesWithMinGap len Knum minGap rs k))"
    by (simp add: eq)
  show "set (fst (pickIndicesWithMinGap len Knum minGap rs k)) \<subseteq> {0..<len}"
    using fl(2) pool(2) by (simp add: eq)
  show "snd (pickIndicesWithMinGap len Knum minGap rs k) = k + (len - 1)"
    using cnt by (simp add: pickIndicesWithMinGap_def Let_def)
qed


lemma place_loop_ok:
  assumes "\<forall>j\<in>set js. j < length idxs \<and> idxs ! j < length snake"
  shows "fst (place_loop snake idxs Knum shift js g) = None
       \<and> anchors (snd (place_loop snake idxs Knum shift js g))
           = anchors g @ map (\<lambda>j. (snake ! (idxs ! j), jsRem (int j - shift + Knum) Knum + 1)) js
       \<and> anchorsMap (snd (place_loop snake idxs Knum shift js g))
           = anchorsMap g ++ map_of (rev (map (\<lambda>j. (snake ! (idxs ! j), jsRem (int j - shift + Knum) Knum + 1)) js))"
  using assms
proof (induction js arbitrary: g)
  case Nil
  show ?case by simp
next
  case (Cons j js)
  let ?g = "g\<lparr>anchors := anchors g @ [(snake ! (idxs ! j), jsRem (int j - shift + Knum) Knum + 1)],
              anchorsMap := (anchorsMap g)(snake ! (idxs ! j) \<mapsto> jsRem (int j - shift + Knum) Knum + 1)\<rparr>"
  from Cons.prems have ok: "j < length idxs \<and> idxs ! j < length snake"
    and rest: "\<forall>j\<in>set js. j < length idxs \<and> idxs ! j < length snake" by auto
  have step: "place_loop snake idxs Knum shift (j # js) g = place_loop snake idxs Knum shift js ?g"
    using ok by (simp add: Let_def)
  show ?case
    unfolding step using Cons.IH[OF rest, of ?g]
    by (simp add: map_add_def fun_eq_iff split: option.splits)
qed

lemma jsRem_nonneg: "0 \<le> a \<Longrightarrow> 0 < b \<Longrightarrow> jsRem a b = a mod b"
  by (cases "a = 0") (simp_all add: jsRem_def)

lemma cyclic_numbers:
  assumes "1 \<le> Knum" and "0 \<le> shift" and "shift < Knum"
  shows "distinct (map (\<lambda>j. (int j - shift + Knum) mod Knum + 1) [0..<nat Knum])"
    and "set (map (\<lambda>j. (int j - shift + Knum) mod Knum + 1) [0..<nat Knum]) = {1..Knum}"
proof -
  let ?f = "\<lambda>j. (int j - shift + Knum) mod Knum + 1"
  have inj: "inj_on ?f {0..<nat Knum}"
  proof (rule inj_onI)
    fix a b assume a: "a \<in> {0..<nat Knum}" and b: "b \<in> {0..<nat Knum}" and e: "?f a = ?f b"
    from e have "(int a - shift + Knum) mod Knum = (int b - shift + Knum) mod Knum" by simp
    then have "Knum dvd (int a - shift + Knum) - (int b - shift + Knum)"
      by (simp only: mod_eq_dvd_iff)
    then have dv: "Knum dvd int a - int b" by simp
    have "\<bar>int a - int b\<bar> < Knum" using a b by auto
    with dv have "int a - int b = 0"
      using zdvd_not_zless[of "\<bar>int a - int b\<bar>" Knum] by (cases "int a - int b = 0") auto
    then show "a = b" by simp
  qed
  show d: "distinct (map ?f [0..<nat Knum])"
    using inj by (simp add: distinct_map)
  have sub: "set (map ?f [0..<nat Knum]) \<subseteq> {1..Knum}"
  proof
    fix n assume "n \<in> set (map ?f [0..<nat Knum])"
    then obtain j where "n = ?f j" by auto
    moreover have "0 \<le> (int j - shift + Knum) mod Knum" "(int j - shift + Knum) mod Knum < Knum"
      using assms(1) by simp_all
    ultimately show "n \<in> {1..Knum}" by simp
  qed
  have "card (set (map ?f [0..<nat Knum])) = nat Knum"
    using d distinct_card[of "map ?f [0..<nat Knum]"] by simp
  then have "card (set (map ?f [0..<nat Knum])) = card {1..Knum}" by simp
  with sub show "set (map ?f [0..<nat Knum]) = {1..Knum}"
    by (simp add: card_subset_eq)
qed

text \<open>
  C5. For a path that is a permutation of the grid's cells, of length at least
  \<open>K\<close>, and a random stream within \<open>[0, 1)\<close>: \<open>pickIndicesWithMinGap\<close> returns \<open>K\<close>
  distinct indices of the path in ascending order; the numbering loop gives the
  \<open>j\<close>-th of them the number \<open>((j - shift + K) mod K) + 1\<close>, with the drawn \<open>shift\<close> in
  \<open>[0, K)\<close> when \<open>K\<close> is at least 1, and raises no error; every number of
  \<open>1, ..., K\<close> appears exactly once among the anchors, the anchor cells are distinct,
  and \<open>anchorsMap\<close> holds exactly the anchors.
\<close>

theorem anchor_placement:
  assumes "randomOk rs" and "isGridPermutation cols rows snake"
    and "0 \<le> Knum" and "Knum \<le> int (length snake)"
  shows "let idxs = fst (pickIndicesWithMinGap (length snake) Knum minGap rs k);
             k1 = snd (pickIndicesWithMinGap (length snake) Knum minGap rs k);
             shift = floorRandom rs k1 Knum;
             res = placeAnchors snake idxs Knum shift (g\<lparr>anchors := [], anchorsMap := Map.empty\<rparr>)
         in length idxs = nat Knum \<and> distinct idxs \<and> sorted idxs
          \<and> set idxs \<subseteq> {0..<length snake}
          \<and> (1 \<le> Knum \<longrightarrow> 0 \<le> shift \<and> shift < Knum)
          \<and> fst res = None
          \<and> anchors (snd res)
               = map (\<lambda>j. (snake ! (idxs ! j), (int j - shift + Knum) mod Knum + 1)) [0..<nat Knum]
          \<and> distinct (map snd (anchors (snd res)))
          \<and> set (map snd (anchors (snd res))) = {1..Knum}
          \<and> distinct (map fst (anchors (snd res)))
          \<and> (\<forall>c n. anchorsMap (snd res) c = Some n \<longleftrightarrow> (c, n) \<in> set (anchors (snd res)))"
proof -
  define idxs where "idxs = fst (pickIndicesWithMinGap (length snake) Knum minGap rs k)"
  define k1 where "k1 = snd (pickIndicesWithMinGap (length snake) Knum minGap rs k)"
  define shift where "shift = floorRandom rs k1 Knum"
  define g0 where "g0 = g\<lparr>anchors := [], anchorsMap := Map.empty\<rparr>"
  define res where "res = placeAnchors snake idxs Knum shift g0"
  define new where "new = map (\<lambda>j. (snake ! (idxs ! j), jsRem (int j - shift + Knum) Knum + 1)) [0..<nat Knum]"
  note pk = pickIndicesWithMinGap_props[OF assms(1,3,4), of minGap k, folded idxs_def]
  have sh: "0 \<le> shift \<and> shift < Knum" if "1 \<le> Knum"
    using floorRandom_range[OF assms(1), of Knum k1] that by (simp add: shift_def)
  have ok: "\<forall>j\<in>set [0..<nat Knum]. j < length idxs \<and> idxs ! j < length snake"
  proof
    fix j assume "j \<in> set [0..<nat Knum]"
    then have j: "j < length idxs" using pk(1) by simp
    then have "idxs ! j \<in> set idxs" by simp
    with pk(4) have "idxs ! j \<in> {0..<length snake}" by blast
    with j show "j < length idxs \<and> idxs ! j < length snake" by simp
  qed
  from place_loop_ok[OF ok, of Knum shift g0]
  have r: "fst res = None" "anchors (snd res) = new" "anchorsMap (snd res) = map_of (rev new)"
    by (simp_all add: res_def placeAnchors_def new_def g0_def)
  have new_eq: "new = map (\<lambda>j. (snake ! (idxs ! j), (int j - shift + Knum) mod Knum + 1)) [0..<nat Knum]"
    unfolding new_def
  proof (rule map_cong[OF refl])
    fix j assume "j \<in> set [0..<nat Knum]"
    then have "1 \<le> Knum" by auto
    from sh[OF this] have "jsRem (int j - shift + Knum) Knum = (int j - shift + Knum) mod Knum"
      by (intro jsRem_nonneg) auto
    then show "(snake ! (idxs ! j), jsRem (int j - shift + Knum) Knum + 1)
             = (snake ! (idxs ! j), (int j - shift + Knum) mod Knum + 1)" by simp
  qed
  have nums: "map snd new = map (\<lambda>j. (int j - shift + Knum) mod Knum + 1) [0..<nat Knum]"
    by (simp add: new_eq comp_def)
  have dn: "distinct (map snd new)" and sn: "set (map snd new) = {1..Knum}"
  proof -
    show "distinct (map snd new)"
    proof (cases "1 \<le> Knum")
      case True
      from cyclic_numbers(1)[OF True] sh[OF True] show ?thesis unfolding nums by simp
    next
      case False
      then show ?thesis by (simp add: new_def)
    qed
    show "set (map snd new) = {1..Knum}"
    proof (cases "1 \<le> Knum")
      case True
      from cyclic_numbers(2)[OF True] sh[OF True] show ?thesis unfolding nums by simp
    next
      case False
      then show ?thesis by (simp add: new_def)
    qed
  qed
  have cells: "map fst new = map (\<lambda>j. snake ! (idxs ! j)) [0..<nat Knum]"
    by (simp add: new_def comp_def)
  have "map (\<lambda>j. idxs ! j) [0..<nat Knum] = idxs"
    using pk(1) by (metis map_nth)
  then have cells': "map fst new = map (\<lambda>i. snake ! i) idxs"
    unfolding cells by (metis (no_types, lifting) map_map comp_def map_eq_conv)
  have dsn: "distinct snake" using assms(2) by (simp add: isGridPermutation_def)
  have dc: "distinct (map fst new)"
    unfolding cells' distinct_map
  proof
    show "distinct idxs" by (rule pk(2))
    show "inj_on ((!) snake) (set idxs)"
    proof (rule inj_onI)
      fix a b assume ab: "a \<in> set idxs" "b \<in> set idxs" and e: "snake ! a = snake ! b"
      from pk(4) ab have "a \<in> {0..<length snake}" "b \<in> {0..<length snake}" by blast+
      then have "a < length snake" "b < length snake" by simp_all
      from nth_eq_iff_index_eq[OF dsn this] e show "a = b" by simp
    qed
  qed
  have mp: "map_of (rev new) c = Some n \<longleftrightarrow> (c, n) \<in> set new" for c n
    using map_of_eq_Some_iff[of "rev new" c n] dc by (simp add: rev_map[symmetric] del: map_of_eq_Some_iff)
  show ?thesis
    unfolding Let_def
    using pk(1-4) sh r dn sn dc mp new_eq
    by (simp add: idxs_def[symmetric] k1_def[symmetric] shift_def[symmetric] g0_def[symmetric]
        res_def[symmetric])
qed


text \<open>On the 3x2 serpentine with \<open>K = 3\<close>, \<open>minGap = 2\<close> and \<open>Math.random()\<close> returning
  \<open>1/2\<close> at every call: the picks are the indices 0, 2 and 5, the shift is 1, and
  the anchors are \<open>3@(0,0)\<close>, \<open>1@(2,0)\<close>, \<open>2@(0,1)\<close>.\<close>

theorem anchor_placement_witness:
  "randomOk (\<lambda>k. 1 / 2)
   \<and> isGridPermutation 3 2 (buildSnakePathBase 3 2)
   \<and> (0::int) \<le> 3 \<and> (3::int) \<le> int (length (buildSnakePathBase 3 2))
   \<and> pickIndicesWithMinGap (length (buildSnakePathBase 3 2)) 3 2 (\<lambda>k. 1 / 2) 0 = ([0, 2, 5], 5)
   \<and> floorRandom (\<lambda>k. 1 / 2) 5 3 = 1
   \<and> anchors (snd (placeAnchors (buildSnakePathBase 3 2) [0, 2, 5] 3 1
                      (demo2x2\<lparr>anchors := [], anchorsMap := Map.empty\<rparr>)))
       = [((0, 0), 3), ((2, 0), 1), ((0, 1), 2)]
   \<and> set (map snd (anchors (snd (placeAnchors (buildSnakePathBase 3 2) [0, 2, 5] 3 1
                      (demo2x2\<lparr>anchors := [], anchorsMap := Map.empty\<rparr>))))) = {1..3}
   \<and> distinct (map fst (anchors (snd (placeAnchors (buildSnakePathBase 3 2) [0, 2, 5] 3 1
                      (demo2x2\<lparr>anchors := [], anchorsMap := Map.empty\<rparr>)))))"
proof -
  have ok: "randomOk (\<lambda>k. 1 / 2)" by (simp add: randomOk_def)
  have p: "isGridPermutation 3 2 (buildSnakePathBase 3 2)"
    by (rule buildSnakePathBase_permutation)
  have l: "length (buildSnakePathBase 3 2) = 6" by code_simp
  have pk: "pickIndicesWithMinGap 6 3 2 (\<lambda>k. 1 / 2) 0 = ([0, 2, 5], 5)" by code_simp
  have sh: "floorRandom (\<lambda>k. 1 / 2) 5 3 = 1" by code_simp
  have an: "anchors (snd (placeAnchors (buildSnakePathBase 3 2) [0, 2, 5] 3 1
                      (demo2x2\<lparr>anchors := [], anchorsMap := Map.empty\<rparr>)))
       = [((0, 0), 3), ((2, 0), 1), ((0, 1), 2)]" by code_simp
  have b: "(0::int) \<le> 3" "(3::int) \<le> int (length (buildSnakePathBase 3 2))"
    by (simp_all add: l)
  from anchor_placement[OF ok p b, of 2 0 demo2x2]
  have "set (map snd (anchors (snd (placeAnchors (buildSnakePathBase 3 2) [0, 2, 5] 3 1
                      (demo2x2\<lparr>anchors := [], anchorsMap := Map.empty\<rparr>))))) = {1..3}"
    and "distinct (map fst (anchors (snd (placeAnchors (buildSnakePathBase 3 2) [0, 2, 5] 3 1
                      (demo2x2\<lparr>anchors := [], anchorsMap := Map.empty\<rparr>)))))"
    unfolding Let_def l pk sh fst_conv snd_conv by blast+
  with ok p b pk sh an l show ?thesis by simp
qed

section \<open>The solvability verifier\<close>

text \<open>
  Two behaviours of the host enter the verifier. The clock: \<open>performance.now()\<close> is
  modelled by the stream of its successive readings, with the number of readings made
  so far passed along; theorems hold for every stream. The sort: the comparator of the
  neighbour ordering answers "less" both ways for two cells that both match
  \<open>nextRequired\<close> (two numberless cells once \<open>nextRequired\<close> is \<open>null\<close>), and for such a
  comparator the order \<open>Array.prototype.sort\<close> produces is implementation-defined. The
  engine's sort is therefore a parameter \<open>srt\<close>, used when it returns a reordering of
  its input; theorems hold for every \<open>srt\<close>.
\<close>

type_synonym clock = "nat \<Rightarrow> real"

type_synonym sorter = "(cell \<Rightarrow> cell \<Rightarrow> int) \<Rightarrow> cell list \<Rightarrow> cell list"

fun isReordering :: "'a list \<Rightarrow> 'a list \<Rightarrow> bool" where
  "isReordering [] ys = (ys = [])"
| "isReordering (x # xs) ys = (x \<in> set ys \<and> isReordering xs (remove1 x ys))"

definition arraySort :: "sorter \<Rightarrow> (cell \<Rightarrow> cell \<Rightarrow> int) \<Rightarrow> cell list \<Rightarrow> cell list" where
  "arraySort srt cmp xs = (let ys = srt cmp xs in if isReordering ys xs then ys else xs)"

text \<open>A stable insertion sort, the result of \<open>Array.prototype.sort\<close> for a consistent
  comparator.\<close>

fun insertBy :: "('a \<Rightarrow> 'a \<Rightarrow> int) \<Rightarrow> 'a \<Rightarrow> 'a list \<Rightarrow> 'a list" where
  "insertBy cmp x [] = [x]"
| "insertBy cmp x (y # ys) = (if cmp y x \<le> 0 then y # insertBy cmp x ys else x # y # ys)"

definition stableSort :: "('a \<Rightarrow> 'a \<Rightarrow> int) \<Rightarrow> 'a list \<Rightarrow> 'a list" where
  "stableSort cmp xs = foldl (\<lambda>acc x. insertBy cmp x acc) [] xs"

text \<open>The comparator of \<open>neigh.sort\<close>.\<close>

definition neighbourCompare :: "game \<Rightarrow> int option \<Rightarrow> cell \<Rightarrow> cell \<Rightarrow> int" where
  "neighbourCompare g nextRequired a b =
     (let an = getCellNumber g a; bn = getCellNumber g b
      in if an = nextRequired then - 1 else if bn = nextRequired then 1 else 0)"

definition dirs :: "cell list" where
  "dirs = [(0, - 1), (1, 0), (0, 1), (- 1, 0)]"

definition neighbour :: "cell \<Rightarrow> cell \<Rightarrow> cell" where
  "neighbour p d = (fst p + fst d, snd p + snd d)"

text \<open>\<open>canReachAllFrom(sx, sy, visited)\<close>: the breadth-first scan. One direction of the
  inner loop, then the loop over the queue.\<close>

definition reachStep :: "game \<Rightarrow> cell set \<Rightarrow> cell \<Rightarrow> cell list \<times> cell set \<times> int \<Rightarrow> cell \<Rightarrow> cell list \<times> cell set \<times> int" where
  "reachStep g visited p st d =
     (let n = neighbour p d; q = fst st; seen = fst (snd st); count = snd (snd st)
      in if \<not> inBounds (COLS g) (ROWS g) n then st
         else if blockedByWall (walls g) p n then st
         else if n \<in> visited \<or> n \<in> seen then st
         else (q @ [n], insert n seen, count + 1))"

function reach_loop :: "game \<Rightarrow> cell set \<Rightarrow> cell list \<times> cell set \<times> int \<Rightarrow> int" where
  "reach_loop g visited ([], seen, count) = count"
| "reach_loop g visited (p # q, seen, count) =
     reach_loop g visited (foldl (reachStep g visited p) (q, seen, count) dirs)"
  by pat_completeness auto

definition reachMeasure :: "game \<Rightarrow> cell list \<times> cell set \<times> int \<Rightarrow> nat" where
  "reachMeasure g st =
     2 * card (gridCells (COLS g) (ROWS g) - fst (snd st)) + length (fst st)"

lemma reachStep_measure: "reachMeasure g (reachStep g visited p st d) \<le> reachMeasure g st"
proof -
  let ?G = "gridCells (COLS g) (ROWS g)"
  have "2 * card (?G - insert n seen) + Suc (length q) \<le> 2 * card (?G - seen) + length q"
    if "n \<in> ?G" "n \<notin> seen" for n seen and q :: "cell list"
  proof -
    have "card (?G - insert n seen) < card (?G - seen)"
      using that by (intro psubset_card_mono) (auto simp: finite_gridCells)
    then show ?thesis by simp
  qed
  then show ?thesis
    by (auto simp: reachStep_def reachMeasure_def Let_def gridCells_def)
qed

lemma foldl_reachStep_measure:
  "reachMeasure g (foldl (reachStep g visited p) st ds) \<le> reachMeasure g st"
proof (induction ds arbitrary: st)
  case Nil
  show ?case by simp
next
  case (Cons d ds)
  show ?case
    using Cons[of "reachStep g visited p st d"] reachStep_measure[of g visited p st d]
    by simp
qed

termination reach_loop
proof (relation "measure (\<lambda>(g, visited, st). reachMeasure g st)")
  show "wf (measure (\<lambda>(g, visited, st). reachMeasure g st))" by simp
next
  fix g :: game and visited p q seen count
  have "reachMeasure g (foldl (reachStep g visited p) (q, seen, count) dirs)
      \<le> reachMeasure g (q, seen, count)" by (rule foldl_reachStep_measure)
  also have "\<dots> < reachMeasure g (p # q, seen, count)" by (simp add: reachMeasure_def)
  finally show "((g, visited, foldl (reachStep g visited p) (q, seen, count) dirs),
                 (g, visited, p # q, seen, count)) \<in> measure (\<lambda>(g, visited, st). reachMeasure g st)"
    by simp
qed

definition canReachAllFrom :: "game \<Rightarrow> cell \<Rightarrow> cell set \<Rightarrow> bool" where
  "canReachAllFrom g s visited =
     (let count = reach_loop g visited ([s], {s}, 0);
          remaining = COLS g * ROWS g - int (card visited)
      in count + 1 \<ge> remaining)"

text \<open>The unvisited, unblocked, in-bounds neighbours of a cell, in the order of \<open>dirs\<close>.\<close>

definition openNeighbours :: "game \<Rightarrow> cell \<Rightarrow> cell set \<Rightarrow> cell list" where
  "openNeighbours g p visitedSet =
     filter (\<lambda>n. inBounds (COLS g) (ROWS g) n \<and> \<not> blockedByWall (walls g) p n \<and> n \<notin> visitedSet)
       (map (neighbour p) dirs)"

text \<open>\<open>newNext\<close> after entering a cell with number \<open>num\<close> (or none).\<close>

definition newNext :: "game \<Rightarrow> int option \<Rightarrow> int option \<Rightarrow> int option" where
  "newNext g num nextRequired =
     (if num \<noteq> None \<and> num = nextRequired
      then (if nextRequired = Some (K g) then None else map_option (\<lambda>n. n + 1) nextRequired)
      else nextRequired)"

lemma isReordering_set: "isReordering xs ys \<Longrightarrow> set xs = set ys"
proof (induction xs arbitrary: ys)
  case Nil
  then show ?case by simp
next
  case (Cons x xs)
  then have x: "x \<in> set ys" and r: "isReordering xs (remove1 x ys)" by simp_all
  from Cons.IH[OF r] have "set xs = set (remove1 x ys)" .
  moreover have "set ys = insert x (set (remove1 x ys))"
    using x by (induction ys) auto
  ultimately show ?case by simp
qed

lemma set_arraySort: "set (arraySort srt cmp xs) = set xs"
  by (simp add: arraySort_def Let_def isReordering_set)

lemma openNeighbours_decrease:
  assumes "nb \<in> set (arraySort srt cmp (openNeighbours g p V))"
  shows "nb \<in> gridCells (COLS g) (ROWS g)" and "nb \<notin> V"
    and "card (gridCells (COLS g) (ROWS g) - insert nb V) < card (gridCells (COLS g) (ROWS g) - V)"
proof -
  from assms show a: "nb \<in> gridCells (COLS g) (ROWS g)" and b: "nb \<notin> V"
    by (auto simp: set_arraySort openNeighbours_def gridCells_def)
  show "card (gridCells (COLS g) (ROWS g) - insert nb V) < card (gridCells (COLS g) (ROWS g) - V)"
    using a b by (intro psubset_card_mono) (auto simp: finite_gridCells)
qed

text \<open>
  \<open>dfs(x, y, visitedSet, nextRequired)\<close> with its closure variables: the clock, the
  deadline, the goal, and \<open>found\<close> with the number of clock readings as the state that
  is passed along. The script adds the neighbour to the shared set before the
  recursive call and deletes it after an unsuccessful return, which leaves the set as
  it was; the model passes the enlarged set to the call. The \<open>for\<close> loop over \<open>neigh\<close>
  is a fold whose accumulator carries a flag for the \<open>return\<close> statements in the loop.
\<close>

function dfs :: "clock \<Rightarrow> sorter \<Rightarrow> game \<Rightarrow> real \<Rightarrow> cell \<Rightarrow> cell \<Rightarrow> cell set \<Rightarrow> int option \<Rightarrow> bool \<times> nat \<Rightarrow> bool \<times> nat" where
  "dfs now srt g deadline gl p visitedSet nextRequired st =
     (if fst st then st
      else if now (snd st) > deadline then (fst st, Suc (snd st))
      else if \<not> canReachAllFrom g p visitedSet then (fst st, Suc (snd st))
      else if int (card visitedSet) = COLS g * ROWS g then
        (if p = gl \<and> nextRequired = None then (True, Suc (snd st)) else (fst st, Suc (snd st)))
      else
        fst (fold
          (\<lambda>nb acc.
             if snd acc then acc
             else if fst (fst acc) then (fst acc, True)
             else if getCellNumber g nb \<noteq> None \<and> getCellNumber g nb \<noteq> nextRequired then acc
             else
               (let st' = dfs now srt g deadline gl nb (insert nb visitedSet)
                            (newNext g (getCellNumber g nb) nextRequired) (fst acc)
                in if fst st' then (st', True)
                   else if now (snd st') > deadline then ((fst st', Suc (snd st')), True)
                   else ((fst st', Suc (snd st')), False)))
          (arraySort srt (neighbourCompare g nextRequired) (openNeighbours g p visitedSet))
          ((fst st, Suc (snd st)), False)))"
  by pat_completeness auto

termination dfs
proof (relation "measure (\<lambda>(now, srt, g, deadline, gl, p, visitedSet, nextRequired, st).
          card (gridCells (COLS g) (ROWS g) - visitedSet))")
  show "wf (measure (\<lambda>(now, srt, g, deadline, gl, p, visitedSet, nextRequired, st).
          card (gridCells (COLS g) (ROWS g) - visitedSet)))" by simp
next
  fix now :: clock and srt :: sorter and g :: game and deadline :: real and gl p :: cell
    and visitedSet :: "cell set" and nextRequired :: "int option" and st :: "bool \<times> nat"
    and nb :: cell and acc :: "(bool \<times> nat) \<times> bool"
  assume "nb \<in> set (arraySort srt (neighbourCompare g nextRequired) (openNeighbours g p visitedSet))"
  from openNeighbours_decrease(3)[OF this]
  show "((now, srt, g, deadline, gl, nb, insert nb visitedSet,
          newNext g (getCellNumber g nb) nextRequired, fst acc),
         (now, srt, g, deadline, gl, p, visitedSet, nextRequired, st))
        \<in> measure (\<lambda>(now, srt, g, deadline, gl, p, visitedSet, nextRequired, st).
          card (gridCells (COLS g) (ROWS g) - visitedSet))"
    by simp
qed

text \<open>\<open>isLayoutSolvable(startX, startY, goalX, goalY, timeBudgetMs)\<close>. The result is
  \<open>found\<close> and the number of clock readings made so far.\<close>

definition isLayoutSolvable :: "clock \<Rightarrow> sorter \<Rightarrow> game \<Rightarrow> cell \<Rightarrow> cell \<Rightarrow> real \<Rightarrow> nat \<Rightarrow> bool \<times> nat" where
  "isLayoutSolvable now srt g start gl timeBudgetMs t =
     (let Knum = K g; startNum = getCellNumber g start
      in if startNum \<noteq> None \<and> startNum \<noteq> Some 1 then (False, t)
         else
           let deadline = now t + timeBudgetMs;
               initialNext = (if startNum = Some 1 then (if Knum = 1 then None else Some 2)
                              else Some 1)
           in dfs now srt g deadline gl start {start} initialNext (False, Suc t))"


subsection \<open>Winning trails\<close>

text \<open>A step of a trail: to one of the four neighbours, inside the grid, across no
  wall.\<close>

definition stepOk :: "game \<Rightarrow> cell \<Rightarrow> cell \<Rightarrow> bool" where
  "stepOk g a b =
     (b \<in> set (map (neighbour a) dirs) \<and> inBounds (COLS g) (ROWS g) b \<and> \<not> blockedByWall (walls g) a b)"

fun stepsOk :: "game \<Rightarrow> cell list \<Rightarrow> bool" where
  "stepsOk g [] = True"
| "stepsOk g [a] = True"
| "stepsOk g (a # b # cs) = (stepOk g a b \<and> stepsOk g (b # cs))"

text \<open>The checkpoint rule along a trail, from the required number \<open>nextRequired\<close>: a
  numbered cell may be entered only when its number is the required one, which then
  advances (to none after \<open>K\<close>). The result is \<open>None\<close> when the rule is broken, and the
  number required at the end otherwise.\<close>

fun consume :: "game \<Rightarrow> int option \<Rightarrow> cell list \<Rightarrow> int option option" where
  "consume g nextRequired [] = Some nextRequired"
| "consume g nextRequired (c # cs) =
     (if getCellNumber g c \<noteq> None \<and> getCellNumber g c \<noteq> nextRequired then None
      else consume g (newNext g (getCellNumber g c) nextRequired) cs)"

text \<open>The numbers met along a trail, in order.\<close>

definition numbersAlong :: "game \<Rightarrow> cell list \<Rightarrow> int list" where
  "numbersAlong g tr = List.map_filter (getCellNumber g) tr"

text \<open>A winning trail from \<open>start\<close> to \<open>gl\<close>: it starts and ends there, moves by legal
  steps, holds every cell of the grid exactly once, and consumes the checkpoints in
  order from 1 until none is required.\<close>

definition isSolution :: "game \<Rightarrow> cell \<Rightarrow> cell \<Rightarrow> cell list \<Rightarrow> bool" where
  "isSolution g start gl tr =
     (tr \<noteq> [] \<and> hd tr = start \<and> last tr = gl \<and> stepsOk g tr
      \<and> hamiltonian (COLS g) (ROWS g) tr \<and> consume g (Some 1) tr = Some None)"

lemma numbersAlong_Cons:
  "numbersAlong g (c # cs) =
     (case getCellNumber g c of None \<Rightarrow> numbersAlong g cs | Some n \<Rightarrow> n # numbersAlong g cs)"
  by (simp add: numbersAlong_def List.map_filter_simps split: option.splits)

lemma consume_none_numbers:
  "consume g None tr = Some r \<Longrightarrow> r = None \<and> numbersAlong g tr = []"
proof (induction tr)
  case Nil
  then show ?case by (simp add: numbersAlong_def List.map_filter_simps)
next
  case (Cons c cs)
  from Cons.prems have n: "getCellNumber g c = None"
    by (auto split: if_splits)
  with Cons.prems have "consume g None cs = Some r" by (simp add: newNext_def)
  from Cons.IH[OF this] n show ?case by (simp add: numbersAlong_Cons)
qed

lemma consume_numbers:
  "consume g (Some m) tr = Some None \<Longrightarrow> m \<le> K g \<and> numbersAlong g tr = [m..K g]"
proof (induction tr arbitrary: m)
  case Nil
  then show ?case by simp
next
  case (Cons c cs)
  show ?case
  proof (cases "getCellNumber g c")
    case None
    with Cons.prems have "consume g (Some m) cs = Some None" by (simp add: newNext_def)
    from Cons.IH[OF this] None show ?thesis by (simp add: numbersAlong_Cons)
  next
    case (Some n)
    with Cons.prems have nm: "n = m" by (auto split: if_splits)
    show ?thesis
    proof (cases "m = K g")
      case True
      with Cons.prems Some nm have "consume g None cs = Some None" by (simp add: newNext_def)
      from consume_none_numbers[OF this] Some nm True show ?thesis
        by (simp add: numbersAlong_Cons)
    next
      case False
      with Cons.prems Some nm have "consume g (Some (m + 1)) cs = Some None"
        by (simp add: newNext_def)
      from Cons.IH[OF this] have "m + 1 \<le> K g" "numbersAlong g cs = [m + 1..K g]" by simp_all
      then show ?thesis using Some nm by (simp add: numbersAlong_Cons upto_rec1[of m])
    qed
  qed
qed

subsection \<open>C9: a start cell numbered other than 1\<close>

text \<open>
  C9. If the start cell bears a checkpoint number other than 1, \<open>isLayoutSolvable\<close>
  returns false at once: the clock is not read and \<open>dfs\<close> is not entered (every
  entry of \<open>dfs\<close> with \<open>found\<close> unset reads the clock).
\<close>

theorem isLayoutSolvable_rejects_start:
  assumes "getCellNumber g start = Some n" and "n \<noteq> 1"
  shows "isLayoutSolvable now srt g start gl timeBudgetMs t = (False, t)"
  using assms by (simp add: isLayoutSolvable_def Let_def)

definition startOnTwo :: game where
  "startOnTwo = demo2x2\<lparr>player := (0, 1), trail := [(0, 1)], visitedCells := {(0, 1)}\<rparr>"

theorem isLayoutSolvable_rejects_start_witness:
  "getCellNumber startOnTwo (0, 1) = Some 2 \<and> (2::int) \<noteq> 1
   \<and> isLayoutSolvable (\<lambda>t. 0) stableSort startOnTwo (0, 1) (0, 0) 400 7 = (False, 7)"
proof -
  have a: "getCellNumber startOnTwo (0, 1) = Some 2"
    by (simp add: startOnTwo_def demo2x2_def getCellNumber_def)
  have b: "(2::int) \<noteq> 1" by simp
  from isLayoutSolvable_rejects_start[OF a b, of "\<lambda>t. 0" stableSort "(0, 0)" 400 7] a b
  show ?thesis by simp
qed

subsection \<open>C2: soundness of the verifier\<close>

lemma loop_found:
  fixes call :: "cell \<Rightarrow> bool \<times> nat \<Rightarrow> bool \<times> nat"
  assumes "fst (fst (fold
          (\<lambda>nb acc.
             if snd acc then acc
             else if fst (fst acc) then (fst acc, True)
             else if skip nb then acc
             else
               (let st' = call nb (fst acc)
                in if fst st' then (st', True)
                   else if late (snd st') then ((fst st', Suc (snd st')), True)
                   else ((fst st', Suc (snd st')), False)))
          xs acc0))"
    and "\<not> fst (fst acc0)"
  shows "\<exists>nb\<in>set xs. \<exists>t1. \<not> skip nb \<and> fst (call nb (False, t1))"
  using assms
proof (induction xs arbitrary: acc0)
  case Nil
  then show ?case by simp
next
  case (Cons x xs)
  let ?F = "\<lambda>nb acc.
             if snd acc then acc
             else if fst (fst acc) then (fst acc, True)
             else if skip nb then acc
             else
               (let st' = call nb (fst acc)
                in if fst st' then (st', True)
                   else if late (snd st') then ((fst st', Suc (snd st')), True)
                   else ((fst st', Suc (snd st')), False))"
  have f: "fst (fst (fold ?F xs (?F x acc0)))" using Cons.prems(1) by simp
  show ?case
  proof (cases "fst (fst (?F x acc0))")
    case False
    from Cons.IH[OF f False] show ?thesis by auto
  next
    case True
    have acc0: "fst acc0 = (False, snd (fst acc0))"
      using Cons.prems(2) by (cases "fst acc0") simp
    from True Cons.prems(2) have "\<not> skip x \<and> fst (call x (fst acc0))"
      by (auto simp: Let_def split: if_splits)
    with acc0 have "\<not> skip x \<and> fst (call x (False, snd (fst acc0)))" by simp
    then show ?thesis by auto
  qed
qed

lemma dfs_sound:
  assumes "finite V" and "fst (dfs now srt g deadline gl p V nextRequired (False, t))"
  shows "\<exists>rest. distinct rest \<and> set rest \<inter> V = {}
           \<and> set rest \<subseteq> gridCells (COLS g) (ROWS g)
           \<and> stepsOk g (p # rest) \<and> consume g nextRequired rest = Some None
           \<and> last (p # rest) = gl
           \<and> int (card V) + int (length rest) = COLS g * ROWS g"
  using assms
proof (induction "card (gridCells (COLS g) (ROWS g) - V)" arbitrary: p V nextRequired t
       rule: less_induct)
  case less
  let ?xs = "arraySort srt (neighbourCompare g nextRequired) (openNeighbours g p V)"
  note found = less.prems(2)
  show ?case
  proof (cases "int (card V) = COLS g * ROWS g")
    case True
    with found have "p = gl \<and> nextRequired = None"
      by (subst (asm) dfs.simps) (auto split: if_splits)
    with True show ?thesis by (intro exI[of _ "[]"]) simp
  next
    case False
    with found have "fst (fst (fold
          (\<lambda>nb acc.
             if snd acc then acc
             else if fst (fst acc) then (fst acc, True)
             else if getCellNumber g nb \<noteq> None \<and> getCellNumber g nb \<noteq> nextRequired then acc
             else
               (let st' = dfs now srt g deadline gl nb (insert nb V)
                            (newNext g (getCellNumber g nb) nextRequired) (fst acc)
                in if fst st' then (st', True)
                   else if now (snd st') > deadline then ((fst st', Suc (snd st')), True)
                   else ((fst st', Suc (snd st')), False)))
          ?xs ((False, Suc t), False)))"
      by (subst (asm) dfs.simps) (simp split: if_splits)
    from loop_found[where skip = "\<lambda>nb. getCellNumber g nb \<noteq> None \<and> getCellNumber g nb \<noteq> nextRequired"
        and call = "\<lambda>nb. dfs now srt g deadline gl nb (insert nb V)
                            (newNext g (getCellNumber g nb) nextRequired)"
        and late = "\<lambda>t'. now t' > deadline", OF this]
    obtain nb t1 where nb: "nb \<in> set ?xs"
      and ok: "\<not> (getCellNumber g nb \<noteq> None \<and> getCellNumber g nb \<noteq> nextRequired)"
      and rec: "fst (dfs now srt g deadline gl nb (insert nb V)
                      (newNext g (getCellNumber g nb) nextRequired) (False, t1))"
      by auto
    note dec = openNeighbours_decrease[OF nb]
    have fin: "finite (insert nb V)" using less.prems(1) by simp
    from less.hyps[OF dec(3) fin rec]
    obtain rest where r: "distinct rest" "set rest \<inter> insert nb V = {}"
      "set rest \<subseteq> gridCells (COLS g) (ROWS g)" "stepsOk g (nb # rest)"
      "consume g (newNext g (getCellNumber g nb) nextRequired) rest = Some None"
      "last (nb # rest) = gl"
      "int (card (insert nb V)) + int (length rest) = COLS g * ROWS g"
      by blast
    have step: "stepOk g p nb"
      using nb by (auto simp: set_arraySort openNeighbours_def stepOk_def)
    have "distinct (nb # rest)" using r(1,2) by auto
    moreover have "set (nb # rest) \<inter> V = {}" using r(2) dec(2) by auto
    moreover have "set (nb # rest) \<subseteq> gridCells (COLS g) (ROWS g)" using r(3) dec(1) by simp
    moreover have "stepsOk g (p # nb # rest)" using step r(4) by simp
    moreover have "consume g nextRequired (nb # rest) = Some None" using ok r(5) by simp
    moreover have "last (p # nb # rest) = gl" using r(6) by simp
    moreover have "int (card V) + int (length (nb # rest)) = COLS g * ROWS g"
      using r(7) dec(2) less.prems(1) by simp
    ultimately show ?thesis by blast
  qed
qed

text \<open>
  C2. For every layout, every start cell of the grid, every goal, budget, clock and
  sort: if \<open>isLayoutSolvable\<close> returns true, there is a trail that starts on the start
  cell, moves only between 4-adjacent cells of the grid not separated by a wall, holds
  every cell of the grid exactly once, enters a numbered cell only when its number is
  the required one, so that the numbers met are \<open>1, ..., K\<close> in this order, and ends on
  the goal with no number left to require.
\<close>

theorem isLayoutSolvable_sound:
  assumes "inBounds (COLS g) (ROWS g) start"
    and "fst (isLayoutSolvable now srt g start gl timeBudgetMs t)"
  shows "\<exists>tr. isSolution g start gl tr
            \<and> isGridPermutation (COLS g) (ROWS g) tr
            \<and> numbersAlong g tr = [1..K g]"
proof -
  let ?num = "getCellNumber g start"
  let ?next = "if ?num = Some 1 then (if K g = 1 then None else Some 2) else Some 1"
  from assms(2) have ok: "\<not> (?num \<noteq> None \<and> ?num \<noteq> Some 1)"
    and found: "fst (dfs now srt g (now t + timeBudgetMs) gl start {start} ?next (False, Suc t))"
    by (auto simp: isLayoutSolvable_def Let_def split: if_splits)
  from dfs_sound[OF _ found]
  obtain rest where r: "distinct rest" "set rest \<inter> {start} = {}"
      "set rest \<subseteq> gridCells (COLS g) (ROWS g)" "stepsOk g (start # rest)"
      "consume g ?next rest = Some None" "last (start # rest) = gl"
      "int (card {start}) + int (length rest) = COLS g * ROWS g"
    by auto
  let ?tr = "start # rest"
  have nx: "newNext g ?num (Some 1) = ?next" by (auto simp: newNext_def)
  have c: "consume g (Some 1) ?tr = Some None" using ok r(5) nx by simp
  have h: "hamiltonian (COLS g) (ROWS g) ?tr"
    using r(1,2,3,7) assms(1) by (auto simp: hamiltonian_def gridCells_def list_all_iff)
  have sol: "isSolution g start gl ?tr"
    using r(4,6) h c by (simp add: isSolution_def)
  from h have "isGridPermutation (COLS g) (ROWS g) ?tr" by (simp add: hamiltonian_iff)
  moreover from consume_numbers[OF c] have "numbersAlong g ?tr = [1..K g]" by simp
  ultimately show ?thesis using sol by blast
qed

theorem isLayoutSolvable_sound_witness:
  "inBounds (COLS demo2x2) (ROWS demo2x2) (0, 0)
   \<and> fst (isLayoutSolvable (\<lambda>t. 0) stableSort demo2x2 (0, 0) (0, 1) 400 0)
   \<and> (\<exists>tr. isSolution demo2x2 (0, 0) (0, 1) tr
          \<and> isGridPermutation (COLS demo2x2) (ROWS demo2x2) tr
          \<and> numbersAlong demo2x2 tr = [1..K demo2x2])
   \<and> isSolution demo2x2 (0, 0) (0, 1) [(0, 0), (1, 0), (1, 1), (0, 1)]"
proof -
  have a: "inBounds (COLS demo2x2) (ROWS demo2x2) (0, 0)"
    by (simp add: demo2x2_def inBounds_def)
  have b: "fst (isLayoutSolvable (\<lambda>t. 0) stableSort demo2x2 (0, 0) (0, 1) 400 0)"
    by code_simp
  have c: "isSolution demo2x2 (0, 0) (0, 1) [(0, 0), (1, 0), (1, 1), (0, 1)]"
    by code_simp
  from isLayoutSolvable_sound[OF a b] a b c show ?thesis by blast
qed

section \<open>Generation\<close>

subsection \<open>The template dispatch\<close>

text \<open>
  The value of the page's template selector as \<open>buildRandomSnakePath\<close> tests it:
  \<open>Auto\<close> for \<open>'auto'\<close>, for the empty string and for a page without the selector
  (\<open>?? 'auto'\<close>); one constructor for each name the dispatch knows; \<open>Unknown\<close> for
  any other string.
\<close>

datatype template =
    Auto | Dfs | Serpentine | Spiral | Column | Diagonal | Center | Rings | Block | Tile
  | Checkerboard | Spokes | TrueSpokes | Perimeter | DiagStripes | Checker2 | Hilbert
  | Corner | Unknown

text \<open>
  Three of the sixteen generators are modelled above: \<open>buildSnakePathBase\<close>,
  \<open>buildBlockSnakePath\<close> and \<open>buildCheckerboard2x2Path\<close>. The bodies of the other
  thirteen are not modelled; a call of one of them is a parameter, and a call either
  returns or raises:

  \<^item> \<open>buildDFSHamiltonian\<close> shuffles, sorts and reads the clock. Its call returns a
    path or \<open>null\<close>, or raises (\<open>Array(cols)\<close> raises a RangeError for a negative
    \<open>cols\<close>, \<open>visited[y][x] = true\<close> a TypeError for a missing row), and leaves new
    numbers of random draws and clock readings.

  \<^item> The twelve others compute a path from \<open>cols\<close> and \<open>rows\<close> alone. A call returns a
    path or raises (\<open>buildCenterSpiralPath\<close> and \<open>buildCornerSpiralPath\<close> write
    \<open>visited[y][x]\<close>, \<open>buildHilbertLikePath\<close> reads \<open>left[left.length - 1].x\<close> and
    recurses without end on an empty grid, which exhausts the stack).

  Nothing is assumed about the paths returned or about the errors raised: the
  theorems of this section hold for every behaviour of these thirteen calls.
\<close>

type_synonym dfsGenerator =
  "int \<Rightarrow> int \<Rightarrow> nat \<Rightarrow> nat \<Rightarrow> (js_error + cell list option) \<times> nat \<times> nat"

type_synonym pathGenerator = "template \<Rightarrow> int \<Rightarrow> int \<Rightarrow> js_error + cell list"

text \<open>The weighted choice of the branch for \<open>'auto'\<close>, on \<open>r = Math.random()\<close>. The
  thresholds are compared as real numbers.\<close>

definition weightedTemplate :: "real \<Rightarrow> template" where
  "weightedTemplate r =
     (if r < 24 / 100 then Dfs
      else if r < 42 / 100 then Serpentine
      else if r < 56 / 100 then Spiral
      else if r < 70 / 100 then Column
      else if r < 78 / 100 then Diagonal
      else if r < 87 / 100 then Center
      else if r < 90 / 100 then Rings
      else if r < 93 / 100 then Checkerboard
      else if r < 95 / 100 then Checker2
      else if r < 96 / 100 then Spokes
      else if r < 97 / 100 then TrueSpokes
      else if r < 98 / 100 then Corner
      else if r < 985 / 1000 then Perimeter
      else if r < 99 / 100 then DiagStripes
      else if r < 995 / 1000 then Hilbert
      else Block)"

text \<open>\<open>if (dfspath && dfspath.length === cols * rows) snake = dfspath\<close>: any other
  result of the DFS generator leaves \<open>snake\<close> at \<open>null\<close>.\<close>

definition acceptDfs :: "int \<Rightarrow> int \<Rightarrow> js_error + cell list option \<Rightarrow> js_error + cell list option" where
  "acceptDfs cols rows res =
     (case res of
        Inl err \<Rightarrow> Inl err
      | Inr None \<Rightarrow> Inr None
      | Inr (Some p) \<Rightarrow> (if int (length p) = cols * rows then Inr (Some p) else Inr None))"

text \<open>The chain of tests on the template name: the value of \<open>snake\<close> after it
  (\<open>None\<close> for \<open>null\<close>), or the error raised by the generator called. No test matches
  an unknown name.\<close>

definition runTemplate :: "dfsGenerator \<Rightarrow> pathGenerator \<Rightarrow> template \<Rightarrow> int \<Rightarrow> int \<Rightarrow> nat \<Rightarrow> nat \<Rightarrow> (js_error + cell list option) \<times> nat \<times> nat" where
  "runTemplate dfsG gen tp cols rows k t =
     (if tp = Dfs
      then (let c = dfsG cols rows k t in (acceptDfs cols rows (fst c), snd c))
      else if tp = Serpentine then (Inr (Some (buildSnakePathBase cols rows)), k, t)
      else if tp = Block then (Inr (Some (buildBlockSnakePath cols rows)), k, t)
      else if tp = Checker2 then (Inr (Some (buildCheckerboard2x2Path cols rows)), k, t)
      else if tp = Auto \<or> tp = Unknown then (Inr None, k, t)
      else (case gen tp cols rows of
              Inl err \<Rightarrow> (Inl err, k, t)
            | Inr p \<Rightarrow> (Inr (Some p), k, t)))"

text \<open>
  \<open>buildRandomSnakePath(cols, rows, template)\<close>: the named template, or the weighted
  choice after one random draw; the fallback to the serpentine when \<open>snake\<close> is
  \<open>null\<close>; the rotation, the two mirrors and the reversal, on four more draws. The
  result is the path or the error raised, with the numbers of random draws and clock
  readings made so far.
\<close>

definition buildRandomSnakePath :: "dfsGenerator \<Rightarrow> pathGenerator \<Rightarrow> rng \<Rightarrow> int \<Rightarrow> int \<Rightarrow> template \<Rightarrow> nat \<Rightarrow> nat \<Rightarrow> (js_error + cell list) \<times> nat \<times> nat" where
  "buildRandomSnakePath dfsG gen rs cols rows tp k t =
     (let c = (if tp \<noteq> Auto then runTemplate dfsG gen tp cols rows k t
               else runTemplate dfsG gen (weightedTemplate (rs k)) cols rows (Suc k) t);
          k1 = fst (snd c); t1 = snd (snd c)
      in case fst c of
           Inl err \<Rightarrow> (Inl err, k1, t1)
         | Inr s \<Rightarrow>
             (let snake0 = (case s of None \<Rightarrow> buildSnakePathBase cols rows | Some p \<Rightarrow> p);
                  rot = nat (floorRandom rs k1 4);
                  snake1 = rotatePath rot cols rows snake0;
                  snake2 = (if rs (k1 + 1) < 1 / 2 then mirrorH cols snake1 else snake1);
                  snake3 = (if rs (k1 + 2) < 1 / 2 then mirrorV rows snake2 else snake2);
                  snake4 = (if rs (k1 + 3) < 1 / 2 then rev snake3 else snake3)
              in (Inr snake4, k1 + 4, t1)))"

subsection \<open>The attempt loop\<close>

text \<open>A level definition of \<open>MODES\<close>.\<close>

record levelDef =
  d_cols :: int
  d_rows :: int
  d_K :: int
  d_minGap :: int
  d_wallPct :: real

text \<open>What a generation request takes from outside the modelled code: the value of
  the template selector read in each attempt, the calls of the generators that are
  not modelled, and the random stream, the clock and the sort of the host.\<close>

record env =
  e_template :: "nat \<Rightarrow> template"
  e_dfs :: dfsGenerator
  e_gen :: pathGenerator
  e_rs :: rng
  e_now :: clock
  e_srt :: sorter

text \<open>The state of a generation request: a raised error, the loop variables
  \<open>solvable\<close> and \<open>attempt\<close>, the globals, and the numbers of random draws and clock
  readings made so far.\<close>

record run =
  r_error :: "js_error option"
  r_solvable :: bool
  r_attempts :: nat
  r_game :: game
  r_draws :: nat
  r_ticks :: nat

definition MAX_ATTEMPTS :: nat where
  "MAX_ATTEMPTS = 50"

text \<open>
  The body of the attempt loop of \<open>generateLevel\<close>, in three parts; \<open>generateZip6x6\<close>
  has the same body without the call of \<open>buildShortcutWallsFromSnake\<close> (\<open>isZip\<close>). The
  \<open>await\<close> of a zero timeout between the steps hands control to the host; no other
  handler is taken to run meanwhile.

  First part: \<open>buildGrid\<close>, the path, the reset of anchors and walls, the picked
  indices, the shift, the numbering loop and the walls. An error raised while the
  path is built leaves the globals as \<open>buildGrid\<close> set them.
\<close>

definition buildCandidate :: "env \<Rightarrow> bool \<Rightarrow> levelDef \<Rightarrow> nat \<Rightarrow> game \<Rightarrow> nat \<Rightarrow> nat \<Rightarrow> js_error option \<times> game \<times> nat \<times> nat" where
  "buildCandidate e isZip d attempt g k t =
     (let g1 = g\<lparr>COLS := d_cols d, ROWS := d_rows d\<rparr>;
          sp = buildRandomSnakePath (e_dfs e) (e_gen e) (e_rs e) (d_cols d) (d_rows d)
                 (e_template e attempt) k t;
          k1 = fst (snd sp); t1 = snd (snd sp)
      in case fst sp of
           Inl err \<Rightarrow> (Some err, g1, k1, t1)
         | Inr snake \<Rightarrow>
             (let g2 = g1\<lparr>anchors := [], anchorsMap := Map.empty, walls := {}\<rparr>;
                  Knum = d_K d;
                  pk = pickIndicesWithMinGap (length snake) Knum (d_minGap d) (e_rs e) k1;
                  idxs = fst pk; k2 = snd pk;
                  shift = floorRandom (e_rs e) k2 Knum; k3 = Suc k2;
                  pl = placeAnchors snake idxs Knum shift g2
              in case fst pl of
                   Some err \<Rightarrow> (Some err, snd pl, k3, t1)
                 | None \<Rightarrow>
                     (let w = (if isZip then (snd pl, k3)
                               else buildShortcutWallsFromSnake snake (d_wallPct d) (e_rs e) k3
                                      (snd pl))
                      in (None, fst w, snd w, t1))))"

text \<open>Second part: the player on anchor 1, the goal on anchor \<open>Knum\<close>, the fresh trail.
  Reading \<open>startA.x\<close> or \<open>finalA.x\<close> of an anchor that \<open>find\<close> did not find raises a
  TypeError; in the second case the player has been set.\<close>

definition placePlayer :: "int \<Rightarrow> nat \<Rightarrow> game \<Rightarrow> js_error option \<times> game" where
  "placePlayer Knum attempt g =
     (case find (\<lambda>a. snd a = 1) (anchors g) of
        None \<Rightarrow> (Some TypeError, g)
      | Some startA \<Rightarrow>
         (case find (\<lambda>a. snd a = Knum) (anchors g) of
            None \<Rightarrow> (Some TypeError, g\<lparr>player := fst startA\<rparr>)
          | Some finalA \<Rightarrow>
              (None, g\<lparr>player := fst startA, goal := fst finalA, trail := [fst startA],
                        visitedCells := {fst startA}, gameOver := False,
                        status := MsgSearching attempt\<rparr>)))"

text \<open>Third part: the quick pass with 400 ms and, when it succeeds, the confirmation
  pass with 2000 ms.\<close>

definition verifyTwice :: "env \<Rightarrow> nat \<Rightarrow> game \<Rightarrow> nat \<Rightarrow> bool \<times> game \<times> nat" where
  "verifyTwice e attempt g t =
     (let quick = isLayoutSolvable (e_now e) (e_srt e) g (player g) (goal g) 400 t
      in if fst quick
         then let confirmed = isLayoutSolvable (e_now e) (e_srt e) g (player g) (goal g) 2000
                                (snd quick)
              in if fst confirmed then (True, g, snd confirmed)
                 else (False, g\<lparr>status := MsgUncertain attempt\<rparr>, snd confirmed)
         else (False, g\<lparr>status := MsgNotSolvable attempt\<rparr>, snd quick))"

definition attemptBody :: "env \<Rightarrow> bool \<Rightarrow> levelDef \<Rightarrow> nat \<Rightarrow> run \<Rightarrow> run" where
  "attemptBody e isZip d attempt r =
     (case buildCandidate e isZip d attempt (r_game r) (r_draws r) (r_ticks r) of
        (Some err, g, k, t) \<Rightarrow>
          r\<lparr>r_error := Some err, r_attempts := attempt, r_game := g, r_draws := k, r_ticks := t\<rparr>
      | (None, g, k, t) \<Rightarrow>
         (case placePlayer (d_K d) attempt g of
            (Some err, g') \<Rightarrow>
              r\<lparr>r_error := Some err, r_attempts := attempt, r_game := g', r_draws := k,
                r_ticks := t\<rparr>
          | (None, g') \<Rightarrow>
             (case verifyTwice e attempt g' t of
                (solvable, g'', t') \<Rightarrow>
                  r\<lparr>r_solvable := solvable, r_attempts := attempt, r_game := g'',
                    r_draws := k, r_ticks := t'\<rparr>)))"

lemma attemptBody_attempts: "r_attempts (attemptBody e isZip d attempt r) = attempt"
  by (simp add: attemptBody_def split: option.splits prod.splits)

text \<open>\<open>while (attempt < MAX_ATTEMPTS && !solvable)\<close>; a raised error leaves the loop and
  the function.\<close>

function generate_loop :: "env \<Rightarrow> bool \<Rightarrow> levelDef \<Rightarrow> run \<Rightarrow> run" where
  "generate_loop e isZip d r =
     (if r_attempts r < MAX_ATTEMPTS \<and> \<not> r_solvable r \<and> r_error r = None
      then generate_loop e isZip d (attemptBody e isZip d (Suc (r_attempts r)) r)
      else r)"
  by pat_completeness auto

termination generate_loop
  by (relation "measure (\<lambda>(e, isZip, d, r). MAX_ATTEMPTS - r_attempts r)")
     (auto simp: attemptBody_attempts)

declare generate_loop.simps [simp del]

text \<open>The layout that the success branch saves.\<close>

definition snapshot :: "game \<Rightarrow> layout" where
  "snapshot g = \<lparr>l_cols = COLS g, l_rows = ROWS g, l_playerStart = player g,
                 l_goalPos = goal g, l_anchors = anchors g, l_walls = walls g\<rparr>"

text \<open>After the loop: the failure message, or the saved layout and the success
  message. An error raised in the loop is not caught: nothing after the loop runs.\<close>

definition generate :: "env \<Rightarrow> bool \<Rightarrow> levelDef \<Rightarrow> game \<Rightarrow> nat \<Rightarrow> nat \<Rightarrow> run" where
  "generate e isZip d g k t =
     (let r = generate_loop e isZip d
                \<lparr>r_error = None, r_solvable = False, r_attempts = 0, r_game = g,
                 r_draws = k, r_ticks = t\<rparr>
      in if r_error r \<noteq> None then r
         else if \<not> r_solvable r
              then r\<lparr>r_game := (r_game r)\<lparr>status := MsgCouldNotGenerate\<rparr>\<rparr>
              else r\<lparr>r_game := (r_game r)\<lparr>savedLayout := Some (snapshot (r_game r)),
                                           status := MsgNewLayout\<rparr>\<rparr>)"

definition generateLevel :: "env \<Rightarrow> levelDef \<Rightarrow> game \<Rightarrow> nat \<Rightarrow> nat \<Rightarrow> run" where
  "generateLevel e d g k t = generate e False d g k t"



subsection \<open>Facts about one attempt\<close>

text \<open>The path that an attempt builds, or the error raised while building it.\<close>

definition attemptPath :: "env \<Rightarrow> levelDef \<Rightarrow> nat \<Rightarrow> nat \<Rightarrow> nat \<Rightarrow> js_error + cell list" where
  "attemptPath e d attempt k t =
     fst (buildRandomSnakePath (e_dfs e) (e_gen e) (e_rs e) (d_cols d) (d_rows d)
            (e_template e attempt) k t)"

definition attemptPathTicks :: "env \<Rightarrow> levelDef \<Rightarrow> nat \<Rightarrow> nat \<Rightarrow> nat \<Rightarrow> nat" where
  "attemptPathTicks e d attempt k t =
     snd (snd (buildRandomSnakePath (e_dfs e) (e_gen e) (e_rs e) (d_cols d) (d_rows d)
                 (e_template e attempt) k t))"

lemma place_loop_frame:
  "COLS (snd (place_loop snake idxs Knum shift js g)) = COLS g
   \<and> ROWS (snd (place_loop snake idxs Knum shift js g)) = ROWS g
   \<and> savedLayout (snd (place_loop snake idxs Knum shift js g)) = savedLayout g
   \<and> status (snd (place_loop snake idxs Knum shift js g)) = status g"
  by (induction js arbitrary: g) (auto simp: Let_def)

lemma place_loop_error:
  assumes "\<exists>j\<in>set js. \<not> (j < length idxs \<and> idxs ! j < length snake)"
  shows "fst (place_loop snake idxs Knum shift js g) = Some TypeError"
  using assms by (induction js arbitrary: g) (auto simp: Let_def)

lemma buildShortcutWalls_frame:
  "anchors (fst (buildShortcutWallsFromSnake snake wallPct rs k g)) = anchors g
   \<and> COLS (fst (buildShortcutWallsFromSnake snake wallPct rs k g)) = COLS g
   \<and> ROWS (fst (buildShortcutWallsFromSnake snake wallPct rs k g)) = ROWS g
   \<and> savedLayout (fst (buildShortcutWallsFromSnake snake wallPct rs k g)) = savedLayout g
   \<and> status (fst (buildShortcutWallsFromSnake snake wallPct rs k g)) = status g"
  by (simp add: buildShortcutWallsFromSnake_def Let_def)

lemma pickIndicesWithMinGap_bound:
  assumes "randomOk rs"
  shows "length (fst (pickIndicesWithMinGap len Knum minGap rs k)) \<le> len"
    and "set (fst (pickIndicesWithMinGap len Knum minGap rs k)) \<subseteq> {0..<len}"
proof -
  let ?pool = "fst (shuffle_loop rs (len - 1) ([0..<len], k))"
  let ?picks = "pick_loop Knum minGap ?pool []"
  let ?fill = "fill_loop Knum ?pool ?picks"
  have "len - 1 < length [0..<len] \<or> len - 1 = 0" by auto
  from shuffle_loop_props[OF assms this, of k]
  have pool: "set ?pool = {0..<len}" "distinct ?pool" by simp_all
  have pk: "distinct ?picks" "set ?picks \<subseteq> set ?pool"
    using pick_loop_props[of "[]" ?pool Knum minGap] pool(2) by auto
  from fill_loop_props[OF pk(1), of Knum ?pool] pk
  have fl: "distinct ?fill" "set ?fill \<subseteq> set ?pool" by auto
  have eq: "fst (pickIndicesWithMinGap len Knum minGap rs k) = sort ?fill"
    by (simp add: pickIndicesWithMinGap_def Let_def)
  show sub: "set (fst (pickIndicesWithMinGap len Knum minGap rs k)) \<subseteq> {0..<len}"
    using fl(2) pool(1) by (simp add: eq)
  have "length ?fill = card (set ?fill)" using fl(1) by (simp add: distinct_card)
  also have "\<dots> \<le> card {0..<len}"
    using fl(2) pool(1) by (intro card_mono) auto
  finally show "length (fst (pickIndicesWithMinGap len Knum minGap rs k)) \<le> len"
    by (simp add: eq)
qed

text \<open>The first part, case by case: the generator raised; the path is too short for
  \<open>K\<close>, or \<open>K < 1\<close>; the path has at least \<open>K \<ge> 1\<close> cells.\<close>

lemma buildCandidate_frame:
  "COLS (fst (snd (buildCandidate e isZip d attempt g k t))) = d_cols d
   \<and> ROWS (fst (snd (buildCandidate e isZip d attempt g k t))) = d_rows d
   \<and> savedLayout (fst (snd (buildCandidate e isZip d attempt g k t))) = savedLayout g
   \<and> status (fst (snd (buildCandidate e isZip d attempt g k t))) = status g
   \<and> snd (snd (snd (buildCandidate e isZip d attempt g k t))) = attemptPathTicks e d attempt k t"
  by (simp add: buildCandidate_def attemptPathTicks_def Let_def placeAnchors_def place_loop_frame
      buildShortcutWalls_frame split: option.splits sum.splits)

lemma buildCandidate_raised:
  assumes "attemptPath e d attempt k t = Inl err"
  shows "fst (buildCandidate e isZip d attempt g k t) = Some err"
  using assms by (simp add: buildCandidate_def attemptPath_def Let_def)

lemma buildCandidate_built:
  assumes "attemptPath e d attempt k t = Inr snake"
  shows "buildCandidate e isZip d attempt g k t =
      (let k1 = fst (snd (buildRandomSnakePath (e_dfs e) (e_gen e) (e_rs e) (d_cols d) (d_rows d)
                            (e_template e attempt) k t));
           t1 = attemptPathTicks e d attempt k t;
           g2 = g\<lparr>COLS := d_cols d, ROWS := d_rows d, anchors := [],
                   anchorsMap := Map.empty, walls := {}\<rparr>;
           pk = pickIndicesWithMinGap (length snake) (d_K d) (d_minGap d) (e_rs e) k1;
           pl = placeAnchors snake (fst pk) (d_K d) (floorRandom (e_rs e) (snd pk) (d_K d)) g2
       in case fst pl of
            Some err \<Rightarrow> (Some err, snd pl, Suc (snd pk), t1)
          | None \<Rightarrow>
              (let w = (if isZip then (snd pl, Suc (snd pk))
                        else buildShortcutWallsFromSnake snake (d_wallPct d) (e_rs e)
                               (Suc (snd pk)) (snd pl))
               in (None, fst w, snd w, t1)))"
  using assms by (simp add: buildCandidate_def attemptPath_def attemptPathTicks_def Let_def)

lemma buildCandidate_invalid:
  assumes "randomOk (e_rs e)"
    and "attemptPath e d attempt k t = Inr snake"
    and "d_K d < 1 \<or> int (length snake) < d_K d"
  shows "fst (buildCandidate e isZip d attempt g k t) = Some TypeError
       \<or> (fst (buildCandidate e isZip d attempt g k t) = None
          \<and> anchors (fst (snd (buildCandidate e isZip d attempt g k t))) = [])"
proof -
  define k1 where "k1 = fst (snd (buildRandomSnakePath (e_dfs e) (e_gen e) (e_rs e) (d_cols d)
                                     (d_rows d) (e_template e attempt) k t))"
  define pk where "pk = pickIndicesWithMinGap (length snake) (d_K d) (d_minGap d) (e_rs e) k1"
  define g2 where "g2 = g\<lparr>COLS := d_cols d, ROWS := d_rows d, anchors := [],
                          anchorsMap := Map.empty, walls := {}\<rparr>"
  define pl where "pl = placeAnchors snake (fst pk) (d_K d) (floorRandom (e_rs e) (snd pk) (d_K d)) g2"
  note bc = buildCandidate_built[OF assms(2), of isZip g, unfolded Let_def,
      folded k1_def, folded pk_def, folded g2_def, folded pl_def]
  show ?thesis
  proof (cases "d_K d < 1")
    case True
    then have "pl = (None, g2)" by (simp add: pl_def placeAnchors_def)
    then show ?thesis
      by (simp add: bc Let_def buildShortcutWalls_frame g2_def)
  next
    case False
    with assms(3) have big: "int (length snake) < d_K d" by simp
    from pickIndicesWithMinGap_bound(1)[OF assms(1), of "length snake" "d_K d" "d_minGap d" k1]
    have "length (fst pk) \<le> length snake" by (simp add: pk_def)
    with big have "length (fst pk) \<in> set [0..<nat (d_K d)]" by simp
    then have "\<exists>j\<in>set [0..<nat (d_K d)]. \<not> (j < length (fst pk) \<and> fst pk ! j < length snake)"
      by (intro bexI[of _ "length (fst pk)"]) simp_all
    from place_loop_error[OF this] have "fst pl = Some TypeError"
      by (simp add: pl_def placeAnchors_def)
    then show ?thesis by (simp add: bc)
  qed
qed

lemma buildCandidate_valid:
  assumes "randomOk (e_rs e)"
    and "attemptPath e d attempt k t = Inr snake"
    and "1 \<le> d_K d" and "d_K d \<le> int (length snake)"
  shows "fst (buildCandidate e isZip d attempt g k t) = None
       \<and> snd ` set (anchors (fst (snd (buildCandidate e isZip d attempt g k t)))) = {1..d_K d}"
proof -
  define k1 where "k1 = fst (snd (buildRandomSnakePath (e_dfs e) (e_gen e) (e_rs e) (d_cols d)
                                     (d_rows d) (e_template e attempt) k t))"
  define pk where "pk = pickIndicesWithMinGap (length snake) (d_K d) (d_minGap d) (e_rs e) k1"
  define g2 where "g2 = g\<lparr>COLS := d_cols d, ROWS := d_rows d, anchors := [],
                          anchorsMap := Map.empty, walls := {}\<rparr>"
  define shift where "shift = floorRandom (e_rs e) (snd pk) (d_K d)"
  define pl where "pl = placeAnchors snake (fst pk) (d_K d) shift g2"
  note bc = buildCandidate_built[OF assms(2), of isZip g, unfolded Let_def,
      folded k1_def, folded pk_def, folded g2_def, folded shift_def, folded pl_def]
  from assms(3) have k0: "0 \<le> d_K d" by simp
  note pp = pickIndicesWithMinGap_props[OF assms(1) k0 assms(4), of "d_minGap d" k1, folded pk_def]
  have sh: "0 \<le> shift \<and> shift < d_K d"
    using floorRandom_range[OF assms(1), of "d_K d" "snd pk"] assms(3) by (simp add: shift_def)
  have ok: "\<forall>j\<in>set [0..<nat (d_K d)]. j < length (fst pk) \<and> fst pk ! j < length snake"
  proof
    fix j assume "j \<in> set [0..<nat (d_K d)]"
    then have j: "j < length (fst pk)" using pp(1) by simp
    then have "fst pk ! j \<in> set (fst pk)" by simp
    with pp(4) have "fst pk ! j \<in> {0..<length snake}" by blast
    with j show "j < length (fst pk) \<and> fst pk ! j < length snake" by simp
  qed
  from place_loop_ok[OF ok, of "d_K d" shift g2]
  have r: "fst pl = None"
    "anchors (snd pl) = map (\<lambda>j. (snake ! (fst pk ! j), jsRem (int j - shift + d_K d) (d_K d) + 1))
                          [0..<nat (d_K d)]"
    by (simp_all add: pl_def placeAnchors_def g2_def)
  have "map snd (anchors (snd pl))
      = map (\<lambda>j. jsRem (int j - shift + d_K d) (d_K d) + 1) [0..<nat (d_K d)]"
    by (simp add: r(2) comp_def)
  also have "\<dots> = map (\<lambda>j. (int j - shift + d_K d) mod d_K d + 1) [0..<nat (d_K d)]"
  proof (rule map_cong[OF refl])
    fix j assume "j \<in> set [0..<nat (d_K d)]"
    have "jsRem (int j - shift + d_K d) (d_K d) = (int j - shift + d_K d) mod d_K d"
      using sh assms(3) by (intro jsRem_nonneg) auto
    then show "jsRem (int j - shift + d_K d) (d_K d) + 1 = (int j - shift + d_K d) mod d_K d + 1"
      by simp
  qed
  finally have "set (map snd (anchors (snd pl))) = {1..d_K d}"
    using cyclic_numbers(2)[OF assms(3), of shift] sh by simp
  then have nums: "snd ` set (anchors (snd pl)) = {1..d_K d}" by simp
  show ?thesis
    using r(1) nums by (simp add: bc Let_def buildShortcutWalls_frame)
qed

text \<open>The second part.\<close>

lemma placePlayer_no_anchors: "anchors g = [] \<Longrightarrow> fst (placePlayer Knum attempt g) = Some TypeError"
  by (simp add: placePlayer_def)

lemma placePlayer_frame:
  "COLS (snd (placePlayer Knum attempt g)) = COLS g
   \<and> ROWS (snd (placePlayer Knum attempt g)) = ROWS g
   \<and> savedLayout (snd (placePlayer Knum attempt g)) = savedLayout g
   \<and> anchors (snd (placePlayer Knum attempt g)) = anchors g"
  by (simp add: placePlayer_def split: option.splits)

lemma placePlayer_error_status:
  "fst (placePlayer Knum attempt g) \<noteq> None \<Longrightarrow>
   fst (placePlayer Knum attempt g) = Some TypeError
   \<and> status (snd (placePlayer Knum attempt g)) = status g"
  by (simp add: placePlayer_def split: option.splits)

text \<open>A candidate as the second part leaves it: the player on the cell of an anchor
  numbered 1, the goal on the cell of an anchor numbered \<open>K\<close>, a trail of the
  player's cell alone, the game not over.\<close>

definition isCandidate :: "levelDef \<Rightarrow> game \<Rightarrow> bool" where
  "isCandidate d g =
     (COLS g = d_cols d \<and> ROWS g = d_rows d
      \<and> (player g, 1) \<in> set (anchors g) \<and> (goal g, d_K d) \<in> set (anchors g)
      \<and> trail g = [player g] \<and> visitedCells g = {player g} \<and> \<not> gameOver g)"

lemma placePlayer_ok:
  assumes "1 \<in> snd ` set (anchors g)" and "Knum \<in> snd ` set (anchors g)"
  shows "fst (placePlayer Knum attempt g) = None
       \<and> (player (snd (placePlayer Knum attempt g)), 1) \<in> set (anchors g)
       \<and> (goal (snd (placePlayer Knum attempt g)), Knum) \<in> set (anchors g)
       \<and> trail (snd (placePlayer Knum attempt g)) = [player (snd (placePlayer Knum attempt g))]
       \<and> visitedCells (snd (placePlayer Knum attempt g)) = {player (snd (placePlayer Knum attempt g))}
       \<and> \<not> gameOver (snd (placePlayer Knum attempt g))
       \<and> status (snd (placePlayer Knum attempt g)) = MsgSearching attempt"
proof -
  from assms(1) obtain s where s: "find (\<lambda>a. snd a = 1) (anchors g) = Some s"
    by (cases "find (\<lambda>a. snd a = 1) (anchors g)") (auto simp: find_None_iff)
  from assms(2) obtain f where f: "find (\<lambda>a. snd a = Knum) (anchors g) = Some f"
    by (cases "find (\<lambda>a. snd a = Knum) (anchors g)") (auto simp: find_None_iff)
  from s have s': "snd s = 1" "s \<in> set (anchors g)"
    by (auto simp: find_Some_iff)
  from f have f': "snd f = Knum" "f \<in> set (anchors g)"
    by (auto simp: find_Some_iff)
  have "(fst s, 1) \<in> set (anchors g)" using s' by (metis prod.collapse)
  moreover have "(fst f, Knum) \<in> set (anchors g)" using f' by (metis prod.collapse)
  ultimately show ?thesis by (simp add: placePlayer_def s f)
qed

text \<open>The third part. Both verifier passes return true on a layout, at some clock
  counts; a pass returns false on it, at some clock count.\<close>

definition passesBoth :: "env \<Rightarrow> game \<Rightarrow> bool" where
  "passesBoth e g =
     (\<exists>t1 t2. fst (isLayoutSolvable (e_now e) (e_srt e) g (player g) (goal g) 400 t1)
            \<and> fst (isLayoutSolvable (e_now e) (e_srt e) g (player g) (goal g) 2000 t2))"

definition failsAPass :: "env \<Rightarrow> game \<Rightarrow> bool" where
  "failsAPass e g =
     (\<exists>t1. \<not> fst (isLayoutSolvable (e_now e) (e_srt e) g (player g) (goal g) 400 t1)
          \<or> \<not> fst (isLayoutSolvable (e_now e) (e_srt e) g (player g) (goal g) 2000 t1))"

lemma verifyTwice_passes:
  "fst (verifyTwice e attempt g t) \<Longrightarrow>
   fst (snd (verifyTwice e attempt g t)) = g \<and> passesBoth e g"
  by (auto simp: verifyTwice_def Let_def passesBoth_def split: if_splits)

lemma verifyTwice_fails:
  "\<not> fst (verifyTwice e attempt g t) \<Longrightarrow>
   failsAPass e g
   \<and> (fst (snd (verifyTwice e attempt g t)) = g\<lparr>status := MsgNotSolvable attempt\<rparr>
      \<or> fst (snd (verifyTwice e attempt g t)) = g\<lparr>status := MsgUncertain attempt\<rparr>)"
  by (auto simp: verifyTwice_def Let_def failsAPass_def split: if_splits)

text \<open>One attempt, from a state of the loop without error, case by case.\<close>

lemma attemptBody_frame:
  "savedLayout (r_game (attemptBody e isZip d attempt r)) = savedLayout (r_game r)
   \<and> COLS (r_game (attemptBody e isZip d attempt r)) = d_cols d
   \<and> ROWS (r_game (attemptBody e isZip d attempt r)) = d_rows d"
proof -
  obtain err g k t where b: "buildCandidate e isZip d attempt (r_game r) (r_draws r) (r_ticks r) = (err, g, k, t)"
    by (metis prod_cases4)
  obtain err' g' where p: "placePlayer (d_K d) attempt g = (err', g')" by (metis surj_pair)
  obtain sv g'' t' where v: "verifyTwice e attempt g' t = (sv, g'', t')" by (metis prod_cases3)
  from buildCandidate_frame[of e isZip d attempt "r_game r" "r_draws r" "r_ticks r"] b
  have fb: "COLS g = d_cols d" "ROWS g = d_rows d" "savedLayout g = savedLayout (r_game r)"
    by simp_all
  from placePlayer_frame[of "d_K d" attempt g] p
  have fp: "COLS g' = COLS g" "ROWS g' = ROWS g" "savedLayout g' = savedLayout g" by simp_all
  have fv: "COLS g'' = COLS g'" "ROWS g'' = ROWS g'" "savedLayout g'' = savedLayout g'"
    using v by (auto simp: verifyTwice_def Let_def split: if_splits)
  show ?thesis
    using fb fp fv by (simp add: attemptBody_def b p v split: option.splits)
qed

lemma attemptBody_raised:
  assumes "attemptPath e d attempt (r_draws r) (r_ticks r) = Inl err"
  shows "r_error (attemptBody e isZip d attempt r) = Some err
       \<and> r_solvable (attemptBody e isZip d attempt r) = r_solvable r
       \<and> status (r_game (attemptBody e isZip d attempt r)) = status (r_game r)
       \<and> r_ticks (attemptBody e isZip d attempt r)
           = attemptPathTicks e d attempt (r_draws r) (r_ticks r)"
proof -
  obtain err0 g k t where b: "buildCandidate e isZip d attempt (r_game r) (r_draws r) (r_ticks r) = (err0, g, k, t)"
    by (metis prod_cases4)
  from buildCandidate_raised[OF assms, of isZip "r_game r"] b have "err0 = Some err" by simp
  moreover from buildCandidate_frame[of e isZip d attempt "r_game r" "r_draws r" "r_ticks r"] b
  have "status g = status (r_game r)" "t = attemptPathTicks e d attempt (r_draws r) (r_ticks r)"
    by simp_all
  ultimately show ?thesis by (simp add: attemptBody_def b)
qed

lemma attemptBody_invalid:
  assumes "randomOk (e_rs e)"
    and "attemptPath e d attempt (r_draws r) (r_ticks r) = Inr snake"
    and "d_K d < 1 \<or> int (length snake) < d_K d"
  shows "r_error (attemptBody e isZip d attempt r) = Some TypeError
       \<and> r_solvable (attemptBody e isZip d attempt r) = r_solvable r
       \<and> status (r_game (attemptBody e isZip d attempt r)) = status (r_game r)
       \<and> r_ticks (attemptBody e isZip d attempt r)
           = attemptPathTicks e d attempt (r_draws r) (r_ticks r)"
proof -
  obtain err g k t where b: "buildCandidate e isZip d attempt (r_game r) (r_draws r) (r_ticks r) = (err, g, k, t)"
    by (metis prod_cases4)
  obtain err' g' where p: "placePlayer (d_K d) attempt g = (err', g')" by (metis surj_pair)
  from buildCandidate_frame[of e isZip d attempt "r_game r" "r_draws r" "r_ticks r"] b
  have fr: "status g = status (r_game r)"
    "t = attemptPathTicks e d attempt (r_draws r) (r_ticks r)" by simp_all
  from buildCandidate_invalid[OF assms, of isZip "r_game r"] b
  have "err = Some TypeError \<or> (err = None \<and> anchors g = [])" by simp
  then show ?thesis
  proof
    assume "err = Some TypeError"
    then show ?thesis using fr by (simp add: attemptBody_def b)
  next
    assume a: "err = None \<and> anchors g = []"
    with placePlayer_no_anchors[of g "d_K d" attempt] p have e': "err' = Some TypeError" by simp
    with placePlayer_error_status[of "d_K d" attempt g] p have "status g' = status g" by simp
    with a e' fr show ?thesis by (simp add: attemptBody_def b p)
  qed
qed

lemma attemptBody_valid:
  assumes "randomOk (e_rs e)"
    and "attemptPath e d attempt (r_draws r) (r_ticks r) = Inr snake"
    and "1 \<le> d_K d" and "d_K d \<le> int (length snake)"
  shows "r_error (attemptBody e isZip d attempt r) = r_error r
       \<and> (r_solvable (attemptBody e isZip d attempt r) \<longrightarrow>
            isCandidate d (r_game (attemptBody e isZip d attempt r))
            \<and> passesBoth e (r_game (attemptBody e isZip d attempt r)))
       \<and> (\<not> r_solvable (attemptBody e isZip d attempt r) \<longrightarrow>
            (\<exists>gc. isCandidate d gc \<and> failsAPass e gc
               \<and> (r_game (attemptBody e isZip d attempt r) = gc\<lparr>status := MsgNotSolvable attempt\<rparr>
                  \<or> r_game (attemptBody e isZip d attempt r) = gc\<lparr>status := MsgUncertain attempt\<rparr>)))"
proof -
  obtain err g k t where b: "buildCandidate e isZip d attempt (r_game r) (r_draws r) (r_ticks r) = (err, g, k, t)"
    by (metis prod_cases4)
  obtain err' g' where p: "placePlayer (d_K d) attempt g = (err', g')" by (metis surj_pair)
  obtain sv g'' t' where v: "verifyTwice e attempt g' t = (sv, g'', t')" by (metis prod_cases3)
  from buildCandidate_valid[OF assms, of isZip "r_game r"] b
  have e0: "err = None" and nums: "snd ` set (anchors g) = {1..d_K d}" by simp_all
  from nums assms(3) have in1: "1 \<in> snd ` set (anchors g)" and inK: "d_K d \<in> snd ` set (anchors g)"
    by simp_all
  from buildCandidate_frame[of e isZip d attempt "r_game r" "r_draws r" "r_ticks r"] b
  have fb: "COLS g = d_cols d" "ROWS g = d_rows d" by simp_all
  from placePlayer_frame[of "d_K d" attempt g] p
  have fp: "COLS g' = COLS g" "ROWS g' = ROWS g" "anchors g' = anchors g" by simp_all
  from placePlayer_ok[OF in1 inK, of attempt] p
  have e1: "err' = None" and "(player g', 1) \<in> set (anchors g)" "(goal g', d_K d) \<in> set (anchors g)"
    "trail g' = [player g']" "visitedCells g' = {player g'}" "\<not> gameOver g'"
    by simp_all
  with fb fp have cand: "isCandidate d g'" by (simp add: isCandidate_def)
  have res: "attemptBody e isZip d attempt r
      = r\<lparr>r_solvable := sv, r_attempts := attempt, r_game := g'', r_draws := k, r_ticks := t'\<rparr>"
    by (simp add: attemptBody_def b p v e0 e1)
  show ?thesis
  proof (cases sv)
    case True
    with verifyTwice_passes[of e attempt g' t] v have "g'' = g'" "passesBoth e g'" by simp_all
    with True cand show ?thesis by (simp add: res)
  next
    case False
    with verifyTwice_fails[of e attempt g' t] v
    have "failsAPass e g'"
      "g'' = g'\<lparr>status := MsgNotSolvable attempt\<rparr> \<or> g'' = g'\<lparr>status := MsgUncertain attempt\<rparr>"
      by simp_all
    with False cand show ?thesis unfolding res by auto
  qed
qed

subsection \<open>The outcomes of a request\<close>

text \<open>
  The cause of an error raised in an attempt that started with \<open>k\<close> random draws and
  \<open>t\<close> clock readings made: the generator raised it, or it is the TypeError of an
  attempt whose path has fewer than \<open>K\<close> cells or whose \<open>K\<close> is below 1.
\<close>

definition errorCause :: "env \<Rightarrow> levelDef \<Rightarrow> nat \<Rightarrow> nat \<Rightarrow> nat \<Rightarrow> js_error \<Rightarrow> bool" where
  "errorCause e d attempt k t err =
     (case attemptPath e d attempt k t of
        Inl raised \<Rightarrow> err = raised
      | Inr snake \<Rightarrow> err = TypeError \<and> (d_K d < 1 \<or> int (length snake) < d_K d))"

text \<open>No message of the request's end is shown: the status is the one from before the
  request, or the rejection message of an earlier attempt.\<close>

definition noReport :: "game \<Rightarrow> game \<Rightarrow> bool" where
  "noReport g g' =
     (status g' = status g \<or> (\<exists>m. status g' = MsgNotSolvable m \<or> status g' = MsgUncertain m))"

text \<open>
  The three ways a request ends. Success: a candidate passed both passes; it is
  saved and the success message is shown. Exhaustion: no error, no candidate passed,
  all attempts were made; the failure message is shown and \<open>savedLayout\<close> is as
  before, while the other globals hold the last candidate, which a pass rejected.
  Interruption: an attempt raised an error, which nothing catches; no message is
  shown and \<open>savedLayout\<close> is as before.
\<close>

definition succeeded :: "env \<Rightarrow> levelDef \<Rightarrow> run \<Rightarrow> bool" where
  "succeeded e d r =
     (r_error r = None \<and> r_solvable r
      \<and> (\<exists>gc. isCandidate d gc \<and> passesBoth e gc
            \<and> r_game r = gc\<lparr>savedLayout := Some (snapshot gc), status := MsgNewLayout\<rparr>))"

definition exhausted :: "env \<Rightarrow> levelDef \<Rightarrow> game \<Rightarrow> run \<Rightarrow> bool" where
  "exhausted e d g r =
     (r_error r = None \<and> \<not> r_solvable r \<and> r_attempts r = MAX_ATTEMPTS
      \<and> savedLayout (r_game r) = savedLayout g
      \<and> (\<exists>gc. isCandidate d gc \<and> failsAPass e gc
            \<and> r_game r = gc\<lparr>status := MsgCouldNotGenerate\<rparr>))"

definition interrupted :: "env \<Rightarrow> levelDef \<Rightarrow> game \<Rightarrow> run \<Rightarrow> bool" where
  "interrupted e d g r =
     (\<exists>err. r_error r = Some err \<and> \<not> r_solvable r
        \<and> (\<exists>k t. errorCause e d (r_attempts r) k t err)
        \<and> savedLayout (r_game r) = savedLayout g
        \<and> noReport g (r_game r))"

text \<open>Every attempt of the request builds a path of at least \<open>K \<ge> 1\<close> cells.\<close>

definition pathsSuffice :: "env \<Rightarrow> levelDef \<Rightarrow> bool" where
  "pathsSuffice e d =
     (1 \<le> d_K d
      \<and> (\<forall>attempt k t. case attemptPath e d attempt k t of
                         Inl err \<Rightarrow> False
                       | Inr snake \<Rightarrow> d_K d \<le> int (length snake)))"

definition boundedOutcome :: "env \<Rightarrow> levelDef \<Rightarrow> game \<Rightarrow> run \<Rightarrow> bool" where
  "boundedOutcome e d g r =
     (1 \<le> r_attempts r \<and> r_attempts r \<le> MAX_ATTEMPTS
      \<and> (succeeded e d r \<or> exhausted e d g r \<or> interrupted e d g r)
      \<and> (pathsSuffice e d \<longrightarrow> succeeded e d r \<or> exhausted e d g r))"

definition loopInv :: "env \<Rightarrow> levelDef \<Rightarrow> game \<Rightarrow> run \<Rightarrow> bool" where
  "loopInv e d g r =
     (r_attempts r \<le> MAX_ATTEMPTS \<and> savedLayout (r_game r) = savedLayout g
      \<and> (r_attempts r = 0 \<longrightarrow> status (r_game r) = status g)
      \<and> (0 < r_attempts r \<longrightarrow> COLS (r_game r) = d_cols d \<and> ROWS (r_game r) = d_rows d)
      \<and> (r_solvable r \<longrightarrow>
            r_error r = None \<and> isCandidate d (r_game r) \<and> passesBoth e (r_game r))
      \<and> (r_error r = None \<and> \<not> r_solvable r \<and> 0 < r_attempts r \<longrightarrow>
            (\<exists>gc. isCandidate d gc \<and> failsAPass e gc
               \<and> (r_game r = gc\<lparr>status := MsgNotSolvable (r_attempts r)\<rparr>
                  \<or> r_game r = gc\<lparr>status := MsgUncertain (r_attempts r)\<rparr>)))
      \<and> (\<forall>err. r_error r = Some err \<longrightarrow>
            0 < r_attempts r \<and> \<not> r_solvable r \<and> noReport g (r_game r)
            \<and> (\<exists>k t. errorCause e d (r_attempts r) k t err)))"

lemma loopInv_noReport:
  assumes "loopInv e d g r" and "r_error r = None" and "\<not> r_solvable r"
  shows "noReport g (r_game r)"
proof (cases "r_attempts r = 0")
  case True
  with assms(1) show ?thesis by (simp add: loopInv_def noReport_def)
next
  case False
  with assms obtain gc where
    "r_game r = gc\<lparr>status := MsgNotSolvable (r_attempts r)\<rparr>
     \<or> r_game r = gc\<lparr>status := MsgUncertain (r_attempts r)\<rparr>"
    unfolding loopInv_def by blast
  then show ?thesis by (auto simp: noReport_def)
qed

lemma noReport_status: "noReport g g' \<Longrightarrow> status g'' = status g' \<Longrightarrow> noReport g g''"
  by (simp add: noReport_def)

lemma loopInv_step:
  assumes ok: "randomOk (e_rs e)" and inv: "loopInv e d g r"
    and c: "r_attempts r < MAX_ATTEMPTS" "\<not> r_solvable r" "r_error r = None"
  shows "loopInv e d g (attemptBody e isZip d (Suc (r_attempts r)) r)"
proof -
  let ?n = "Suc (r_attempts r)"
  let ?r = "attemptBody e isZip d ?n r"
  note fr = attemptBody_frame[of e isZip d ?n r]
  note at = attemptBody_attempts[of e isZip d ?n r]
  from inv have sl: "savedLayout (r_game r) = savedLayout g" by (simp add: loopInv_def)
  note nr = loopInv_noReport[OF inv c(3) c(2)]
  have base: "r_attempts ?r \<le> MAX_ATTEMPTS" "savedLayout (r_game ?r) = savedLayout g"
    "r_attempts ?r \<noteq> 0" "COLS (r_game ?r) = d_cols d" "ROWS (r_game ?r) = d_rows d"
    using fr at c(1) sl by simp_all
  show ?thesis
  proof (cases "attemptPath e d ?n (r_draws r) (r_ticks r)")
    case (Inl err)
    from attemptBody_raised[OF Inl, of isZip]
    have a: "r_error ?r = Some err" "\<not> r_solvable ?r" "status (r_game ?r) = status (r_game r)"
      using c(2) by simp_all
    have "errorCause e d ?n (r_draws r) (r_ticks r) err" by (simp add: errorCause_def Inl)
    then have "\<exists>k t. errorCause e d (r_attempts ?r) k t err" unfolding at by blast
    with a base noReport_status[OF nr a(3)] show ?thesis by (simp add: loopInv_def)
  next
    case (Inr snake)
    show ?thesis
    proof (cases "d_K d < 1 \<or> int (length snake) < d_K d")
      case True
      from attemptBody_invalid[OF ok Inr True, of isZip]
      have a: "r_error ?r = Some TypeError" "\<not> r_solvable ?r"
        "status (r_game ?r) = status (r_game r)"
        using c(2) by simp_all
      have "errorCause e d ?n (r_draws r) (r_ticks r) TypeError"
        using True by (simp add: errorCause_def Inr)
      then have "\<exists>k t. errorCause e d (r_attempts ?r) k t TypeError" unfolding at by blast
      with a base noReport_status[OF nr a(3)] show ?thesis by (simp add: loopInv_def)
    next
      case False
      then have k: "1 \<le> d_K d" "d_K d \<le> int (length snake)" by simp_all
      from attemptBody_valid[OF ok Inr k, of isZip]
      have a: "r_error ?r = None"
        "r_solvable ?r \<longrightarrow> isCandidate d (r_game ?r) \<and> passesBoth e (r_game ?r)"
        "\<not> r_solvable ?r \<longrightarrow>
            (\<exists>gc. isCandidate d gc \<and> failsAPass e gc
               \<and> (r_game ?r = gc\<lparr>status := MsgNotSolvable ?n\<rparr>
                  \<or> r_game ?r = gc\<lparr>status := MsgUncertain ?n\<rparr>))"
        using c(3) by simp_all
      show ?thesis
        unfolding loopInv_def using a base at c(1) by simp
    qed
  qed
qed

lemma generate_loop_inv:
  "randomOk (e_rs e) \<Longrightarrow> loopInv e d g r \<Longrightarrow>
   loopInv e d g (generate_loop e isZip d r)
   \<and> r_attempts r \<le> r_attempts (generate_loop e isZip d r)
   \<and> \<not> (r_attempts (generate_loop e isZip d r) < MAX_ATTEMPTS
        \<and> \<not> r_solvable (generate_loop e isZip d r)
        \<and> r_error (generate_loop e isZip d r) = None)"
proof (induction e isZip d r rule: generate_loop.induct)
  case (1 e isZip d r)
  show ?case
  proof (cases "r_attempts r < MAX_ATTEMPTS \<and> \<not> r_solvable r \<and> r_error r = None")
    case True
    let ?r = "attemptBody e isZip d (Suc (r_attempts r)) r"
    have li: "loopInv e d g ?r"
      using loopInv_step[OF "1.prems"(1,2)] True by blast
    have eq: "generate_loop e isZip d r = generate_loop e isZip d ?r"
      using True by (subst generate_loop.simps) simp
    from "1.IH"[OF True "1.prems"(1) li] show ?thesis
      unfolding eq by (simp add: attemptBody_attempts)
  next
    case False
    then have "generate_loop e isZip d r = r"
      by (subst generate_loop.simps) (rule if_not_P)
    with False "1.prems" show ?thesis by simp
  qed
qed

lemma generate_loop_start:
  "generate_loop e isZip d \<lparr>r_error = None, r_solvable = False, r_attempts = 0, r_game = g,
                            r_draws = k, r_ticks = t\<rparr>
   = generate_loop e isZip d
       (attemptBody e isZip d (Suc 0)
          \<lparr>r_error = None, r_solvable = False, r_attempts = 0, r_game = g,
           r_draws = k, r_ticks = t\<rparr>)"
  by (subst generate_loop.simps) (simp add: MAX_ATTEMPTS_def)

lemma generate_loop_stop:
  "\<not> (r_attempts r < MAX_ATTEMPTS \<and> \<not> r_solvable r \<and> r_error r = None) \<Longrightarrow>
   generate_loop e isZip d r = r"
  by (subst generate_loop.simps) (rule if_not_P)

lemma loopInv_start:
  "loopInv e d g \<lparr>r_error = None, r_solvable = False, r_attempts = 0, r_game = g,
                  r_draws = k, r_ticks = t\<rparr>"
  by (simp add: loopInv_def)

lemma generate_outcome:
  assumes "randomOk (e_rs e)"
  shows "boundedOutcome e d g (generate e isZip d g k t)
       \<and> COLS (r_game (generate e isZip d g k t)) = d_cols d
       \<and> ROWS (r_game (generate e isZip d g k t)) = d_rows d"
proof -
  let ?init = "\<lparr>r_error = None, r_solvable = False, r_attempts = 0, r_game = g,
             r_draws = k, r_ticks = t\<rparr>"
  let ?r1 = "attemptBody e isZip d (Suc 0) ?init"
  let ?r = "generate_loop e isZip d ?init"
  let ?res = "generate e isZip d g k t"
  have li1: "loopInv e d g ?r1"
    using loopInv_step[OF assms loopInv_start[of e d g k t], where isZip = isZip]
    by (simp add: MAX_ATTEMPTS_def)
  have req: "?r = generate_loop e isZip d ?r1" by (rule generate_loop_start)
  note gi = generate_loop_inv[OF assms li1, of isZip, folded req]
  from gi have li: "loopInv e d g ?r" by (rule conjunct1)
  from gi have ge: "1 \<le> r_attempts ?r" by (simp add: attemptBody_attempts)
  from gi have ex: "\<not> (r_attempts ?r < MAX_ATTEMPTS \<and> \<not> r_solvable ?r \<and> r_error ?r = None)"
    by simp
  note inv0 = li[unfolded loopInv_def]
  from inv0 ge have inv: "r_attempts ?r \<le> MAX_ATTEMPTS" "savedLayout (r_game ?r) = savedLayout g"
    "COLS (r_game ?r) = d_cols d" "ROWS (r_game ?r) = d_rows d"
    by simp_all
  from inv0 have invS: "r_solvable ?r \<longrightarrow>
      r_error ?r = None \<and> isCandidate d (r_game ?r) \<and> passesBoth e (r_game ?r)"
    by blast
  from inv0 ge have invX: "r_error ?r = None \<and> \<not> r_solvable ?r \<longrightarrow>
      (\<exists>gc. isCandidate d gc \<and> failsAPass e gc
         \<and> (r_game ?r = gc\<lparr>status := MsgNotSolvable (r_attempts ?r)\<rparr>
            \<or> r_game ?r = gc\<lparr>status := MsgUncertain (r_attempts ?r)\<rparr>))"
    by simp
  from inv0 have invE: "\<forall>err. r_error ?r = Some err \<longrightarrow>
      \<not> r_solvable ?r \<and> noReport g (r_game ?r) \<and> (\<exists>k t. errorCause e d (r_attempts ?r) k t err)"
    by blast
  have main: "1 \<le> r_attempts ?res \<and> r_attempts ?res \<le> MAX_ATTEMPTS
       \<and> (succeeded e d ?res \<or> exhausted e d g ?res \<or> interrupted e d g ?res)
       \<and> COLS (r_game ?res) = d_cols d \<and> ROWS (r_game ?res) = d_rows d"
  proof (cases "r_error ?r")
    case (Some err)
    then have eq: "?res = ?r" by (simp add: generate_def Let_def)
    from invE Some have "interrupted e d g ?r"
      using inv(2) by (simp add: interrupted_def)
    with ge inv show ?thesis unfolding eq by simp
  next
    case None
    show ?thesis
    proof (cases "r_solvable ?r")
      case True
      with None have eq: "?res
          = ?r\<lparr>r_game := (r_game ?r)\<lparr>savedLayout := Some (snapshot (r_game ?r)),
                                     status := MsgNewLayout\<rparr>\<rparr>"
        by (simp add: generate_def Let_def)
      from invS True have "isCandidate d (r_game ?r)" "passesBoth e (r_game ?r)" by simp_all
      then have "succeeded e d ?res"
        unfolding eq using None True by (auto simp: succeeded_def)
      with ge inv show ?thesis unfolding eq by simp
    next
      case False
      with None have eq: "?res = ?r\<lparr>r_game := (r_game ?r)\<lparr>status := MsgCouldNotGenerate\<rparr>\<rparr>"
        by (simp add: generate_def Let_def)
      from ex None False inv(1) have all: "r_attempts ?r = MAX_ATTEMPTS" by simp
      from invX None False obtain gc where gc: "isCandidate d gc" "failsAPass e gc"
        "r_game ?r = gc\<lparr>status := MsgNotSolvable (r_attempts ?r)\<rparr>
            \<or> r_game ?r = gc\<lparr>status := MsgUncertain (r_attempts ?r)\<rparr>"
        by blast
      from gc(3) have "(r_game ?r)\<lparr>status := MsgCouldNotGenerate\<rparr> = gc\<lparr>status := MsgCouldNotGenerate\<rparr>"
        by auto
      moreover from gc(3) have "savedLayout gc = savedLayout (r_game ?r)" by auto
      ultimately have "exhausted e d g ?res"
        unfolding eq using gc(1,2) None False all inv(2) by (auto simp: exhausted_def)
      with ge inv show ?thesis unfolding eq by simp
    qed
  qed
  have "\<not> interrupted e d g ?res" if ps: "pathsSuffice e d"
  proof
    assume "interrupted e d g ?res"
    then obtain err k' t' where "errorCause e d (r_attempts ?res) k' t' err"
      unfolding interrupted_def by blast
    then have ec: "case attemptPath e d (r_attempts ?res) k' t' of
          Inl raised \<Rightarrow> err = raised
        | Inr snake \<Rightarrow> err = TypeError \<and> (d_K d < 1 \<or> int (length snake) < d_K d)"
      by (simp add: errorCause_def)
    from ps have k1: "1 \<le> d_K d"
      and su: "case attemptPath e d (r_attempts ?res) k' t' of
          Inl err \<Rightarrow> False | Inr snake \<Rightarrow> d_K d \<le> int (length snake)"
      unfolding pathsSuffice_def by blast+
    show False
    proof (cases "attemptPath e d (r_attempts ?res) k' t'")
      case (Inl a)
      with su show False by simp
    next
      case (Inr b)
      with su ec k1 show False by simp
    qed
  qed
  with main show ?thesis unfolding boundedOutcome_def by blast
qed

text \<open>The request and its first attempt: an error in the first attempt ends the
  request there; without one, the request ends without error or goes on to a second
  attempt.\<close>

lemma generate_first_attempt:
  assumes "randomOk (e_rs e)"
  shows "(r_error (attemptBody e isZip d (Suc 0)
                     \<lparr>r_error = None, r_solvable = False, r_attempts = 0, r_game = g,
                      r_draws = k, r_ticks = t\<rparr>) \<noteq> None \<longrightarrow>
            generate e isZip d g k t
              = attemptBody e isZip d (Suc 0)
                  \<lparr>r_error = None, r_solvable = False, r_attempts = 0, r_game = g,
                   r_draws = k, r_ticks = t\<rparr>)
       \<and> (r_error (attemptBody e isZip d (Suc 0)
                     \<lparr>r_error = None, r_solvable = False, r_attempts = 0, r_game = g,
                      r_draws = k, r_ticks = t\<rparr>) = None \<longrightarrow>
            r_error (generate e isZip d g k t) = None
            \<or> 2 \<le> r_attempts (generate e isZip d g k t))"
proof -
  let ?init = "\<lparr>r_error = None, r_solvable = False, r_attempts = 0, r_game = g,
             r_draws = k, r_ticks = t\<rparr>"
  let ?r1 = "attemptBody e isZip d (Suc 0) ?init"
  let ?r = "generate_loop e isZip d ?init"
  have req: "?r = generate_loop e isZip d ?r1" by (rule generate_loop_start)
  have at: "r_attempts (generate e isZip d g k t) = r_attempts ?r"
    by (simp add: generate_def Let_def)
  have er: "r_error (generate e isZip d g k t) = r_error ?r"
    by (simp add: generate_def Let_def)
  have a: "generate e isZip d g k t = ?r1" if "r_error ?r1 \<noteq> None"
  proof -
    from that have "generate_loop e isZip d ?r1 = ?r1"
      by (intro generate_loop_stop) simp
    with req have "?r = ?r1" by simp
    with that show ?thesis by (simp add: generate_def Let_def)
  qed
  have b: "r_error (generate e isZip d g k t) = None \<or> 2 \<le> r_attempts (generate e isZip d g k t)"
    if none: "r_error ?r1 = None"
  proof (cases "r_solvable ?r1")
    case True
    then have "generate_loop e isZip d ?r1 = ?r1"
      by (intro generate_loop_stop) simp
    with req none show ?thesis unfolding er by simp
  next
    case False
    let ?r2 = "attemptBody e isZip d (Suc (r_attempts ?r1)) ?r1"
    have li1: "loopInv e d g ?r1"
      using loopInv_step[OF assms loopInv_start[of e d g k t], where isZip = isZip]
    by (simp add: MAX_ATTEMPTS_def)
    have c: "r_attempts ?r1 < MAX_ATTEMPTS" "\<not> r_solvable ?r1" "r_error ?r1 = None"
      using False none by (simp_all add: attemptBody_attempts MAX_ATTEMPTS_def)
    have li2: "loopInv e d g ?r2" by (rule loopInv_step[OF assms li1 c])
    have "generate_loop e isZip d ?r1 = generate_loop e isZip d ?r2"
      using c by (subst generate_loop.simps) simp
    with req have "?r = generate_loop e isZip d ?r2" by simp
    with generate_loop_inv[OF assms li2, of isZip]
    have "r_attempts ?r2 \<le> r_attempts ?r" by simp
    then have "2 \<le> r_attempts ?r" by (simp add: attemptBody_attempts)
    then show ?thesis unfolding at by simp
  qed
  from a b show ?thesis by blast
qed

subsection \<open>The paths of the modelled generators\<close>

lemma length_buildCheckerboard2x2Path:
  "nat cols * nat rows \<le> length (buildCheckerboard2x2Path cols rows)"
proof (cases "int (length (checker2Blocks cols rows)) = cols * rows")
  case True
  then have eq: "buildCheckerboard2x2Path cols rows = checker2Blocks cols rows"
    by (simp add: buildCheckerboard2x2Path_def Let_def)
  show ?thesis
  proof (cases "0 \<le> cols \<and> 0 \<le> rows")
    case nn: True
    then have "int (nat cols * nat rows) = cols * rows" by simp
    with True show ?thesis unfolding eq by linarith
  next
    case False
    then have z: "nat cols * nat rows = 0" by auto
    show ?thesis unfolding z by simp
  qed
next
  case False
  let ?p = "fillMissing (checker2Blocks cols rows) (buildSnakePathBase cols rows)"
  from False have eq: "buildCheckerboard2x2Path cols rows = ?p"
    by (simp add: buildCheckerboard2x2Path_def Let_def)
  have "gridCells cols rows \<subseteq> set ?p"
    by (simp add: fillMissing_set set_buildSnakePathBase)
  then have "card (gridCells cols rows) \<le> card (set ?p)"
    by (intro card_mono) simp_all
  also have "\<dots> \<le> length ?p" by (rule card_length)
  finally show ?thesis unfolding eq by (simp add: card_gridCells)
qed

text \<open>With the selector on \<open>'serpentine'\<close>, \<open>'block'\<close>, \<open>'checker2'\<close> or an unknown name,
  an attempt builds a path without error; it has \<open>cols * rows\<close> cells (none for a
  dimension that is not positive), or at least as many for \<open>'checker2'\<close>.\<close>

lemma attemptPath_modelled:
  assumes "e_template e attempt \<in> {Serpentine, Block, Checker2, Unknown}"
  shows "\<exists>snake. attemptPath e d attempt k t = Inr snake
           \<and> nat (d_cols d) * nat (d_rows d) \<le> length snake
           \<and> (e_template e attempt \<noteq> Checker2 \<longrightarrow>
                length snake = nat (d_cols d) * nat (d_rows d))"
proof -
  have bl: "length (buildBlockSnakePath (d_cols d) (d_rows d)) = nat (d_cols d) * nat (d_rows d)"
    by (rule isGridPermutation_length[OF buildBlockSnakePath_permutation])
  note ck = length_buildCheckerboard2x2Path[of "d_cols d" "d_rows d"]
  from assms consider "e_template e attempt = Serpentine" | "e_template e attempt = Block"
    | "e_template e attempt = Checker2" | "e_template e attempt = Unknown" by auto
  then show ?thesis
  proof cases
    case 1
    then show ?thesis
      by (simp add: attemptPath_def buildRandomSnakePath_def runTemplate_def Let_def
          rotatePath_def mirrorH_def mirrorV_def length_buildSnakePathBase)
  next
    case 2
    then show ?thesis
      by (simp add: attemptPath_def buildRandomSnakePath_def runTemplate_def Let_def
          rotatePath_def mirrorH_def mirrorV_def bl)
  next
    case 3
    then show ?thesis
      using ck
      by (simp add: attemptPath_def buildRandomSnakePath_def runTemplate_def Let_def
          rotatePath_def mirrorH_def mirrorV_def)
  next
    case 4
    then show ?thesis
      by (simp add: attemptPath_def buildRandomSnakePath_def runTemplate_def Let_def
          rotatePath_def mirrorH_def mirrorV_def length_buildSnakePathBase)
  qed
qed


text \<open>An invalid configuration whose path has \<open>cols * rows\<close> cells has \<open>K < 1\<close> or more
  numbers than the path has cells.\<close>

definition invalidConfig :: "levelDef \<Rightarrow> bool" where
  "invalidConfig d = (d_K d > d_cols d * d_rows d \<or> d_K d < 1 \<or> d_cols d \<le> 0 \<or> d_rows d \<le> 0)"

lemma invalidConfig_short:
  assumes "invalidConfig d" and "length snake = nat (d_cols d) * nat (d_rows d)"
  shows "d_K d < 1 \<or> int (length snake) < d_K d"
proof (cases "d_cols d \<le> 0 \<or> d_rows d \<le> 0")
  case True
  then have "length snake = 0" unfolding assms(2) by auto
  then show ?thesis by (simp only:) linarith
next
  case False
  then have "int (nat (d_cols d) * nat (d_rows d)) = d_cols d * d_rows d" by simp
  with assms False show ?thesis unfolding invalidConfig_def by linarith
qed

text \<open>A request ends in its first attempt with an error: one attempt, no candidate
  passed, no clock reading after the path was built (no verifier call), \<open>savedLayout\<close>
  and the status message as before the request.\<close>

definition endsInFirstAttempt :: "env \<Rightarrow> levelDef \<Rightarrow> game \<Rightarrow> nat \<Rightarrow> nat \<Rightarrow> js_error \<Rightarrow> run \<Rightarrow> bool" where
  "endsInFirstAttempt e d g k t err r =
     (r_error r = Some err \<and> r_attempts r = 1 \<and> \<not> r_solvable r
      \<and> r_ticks r = attemptPathTicks e d 1 k t
      \<and> savedLayout (r_game r) = savedLayout g \<and> status (r_game r) = status g)"

lemma generate_first_attempt_cases:
  assumes "randomOk (e_rs e)"
  shows "case attemptPath e d 1 k t of
            Inl err \<Rightarrow> endsInFirstAttempt e d g k t err (generate e isZip d g k t)
          | Inr snake \<Rightarrow>
              (if d_K d < 1 \<or> int (length snake) < d_K d
               then endsInFirstAttempt e d g k t TypeError (generate e isZip d g k t)
               else r_error (generate e isZip d g k t) = None
                    \<or> 2 \<le> r_attempts (generate e isZip d g k t))"
proof -
  let ?init = "\<lparr>r_error = None, r_solvable = False, r_attempts = 0, r_game = g,
             r_draws = k, r_ticks = t\<rparr>"
  let ?r1 = "attemptBody e isZip d (Suc 0) ?init"
  note fa = generate_first_attempt[OF assms, of isZip d g k t]
  note fr = attemptBody_frame[of e isZip d "Suc 0" ?init]
  note at = attemptBody_attempts[of e isZip d "Suc 0" ?init]
  show ?thesis
  proof (cases "attemptPath e d 1 k t")
    case (Inl err)
    then have p: "attemptPath e d (Suc 0) (r_draws ?init) (r_ticks ?init) = Inl err" by simp
    from attemptBody_raised[OF p, of isZip]
    have a: "r_error ?r1 = Some err" "\<not> r_solvable ?r1" "status (r_game ?r1) = status g"
      "r_ticks ?r1 = attemptPathTicks e d 1 k t" by simp_all
    with fa have "generate e isZip d g k t = ?r1" by simp
    with a fr at have "endsInFirstAttempt e d g k t err (generate e isZip d g k t)"
      by (simp add: endsInFirstAttempt_def)
    with Inl show ?thesis by simp
  next
    case (Inr snake)
    then have p: "attemptPath e d (Suc 0) (r_draws ?init) (r_ticks ?init) = Inr snake" by simp
    show ?thesis
    proof (cases "d_K d < 1 \<or> int (length snake) < d_K d")
      case True
      from attemptBody_invalid[OF assms p True, of isZip]
      have a: "r_error ?r1 = Some TypeError" "\<not> r_solvable ?r1"
        "status (r_game ?r1) = status g" "r_ticks ?r1 = attemptPathTicks e d 1 k t"
        by simp_all
      with fa have "generate e isZip d g k t = ?r1" by simp
      with a fr at have "endsInFirstAttempt e d g k t TypeError (generate e isZip d g k t)"
        by (simp add: endsInFirstAttempt_def)
      with Inr True show ?thesis by simp
    next
      case False
      then have kk: "1 \<le> d_K d" "d_K d \<le> int (length snake)" by simp_all
      from attemptBody_valid[OF assms p kk, of isZip] have "r_error ?r1 = None" by simp
      with fa have "r_error (generate e isZip d g k t) = None
          \<or> 2 \<le> r_attempts (generate e isZip d g k t)" by simp
      with Inr False show ?thesis by simp
    qed
  qed
qed

text \<open>With the selector on \<open>'serpentine'\<close>, \<open>'block'\<close> or an unknown name, every request
  with an invalid configuration ends in its first attempt with a TypeError.\<close>

lemma generate_invalid_modelled:
  assumes "randomOk (e_rs e)" and "e_template e 1 \<in> {Serpentine, Block, Unknown}"
    and "invalidConfig d"
  shows "endsInFirstAttempt e d g k t TypeError (generate e isZip d g k t)"
proof -
  from assms(2) have "e_template e 1 \<in> {Serpentine, Block, Checker2, Unknown}"
    and nc: "e_template e 1 \<noteq> Checker2" by auto
  from attemptPath_modelled[OF this(1), of d k t] nc obtain snake
    where s: "attemptPath e d 1 k t = Inr snake"
      "length snake = nat (d_cols d) * nat (d_rows d)" by blast
  from invalidConfig_short[OF assms(3) s(2)]
  have "d_K d < 1 \<or> int (length snake) < d_K d" .
  with generate_first_attempt_cases[OF assms(1), where d = d and k = k and t = t and g = g
      and isZip = isZip] s(1)
  show ?thesis by simp
qed

subsection \<open>Example hosts and configurations\<close>

text \<open>
  In the examples, but for the last host below, the selector names a modelled
  generator, so that the generators that are not modelled are not called: \<open>e_dfs\<close> and
  \<open>e_gen\<close> are placeholders. \<open>Math.random()\<close> returns 0. The late clock advances by a second at every reading,
  so that every deadline has passed at its first test; the calm clock stands still.
\<close>

definition noDfs :: dfsGenerator where
  "noDfs cols rows k t = (Inr None, k, t)"

definition noPath :: pathGenerator where
  "noPath tp cols rows = Inr []"

definition lateEnv :: env where
  "lateEnv = \<lparr>e_template = (\<lambda>n. Serpentine), e_dfs = noDfs, e_gen = noPath,
              e_rs = (\<lambda>k. 0), e_now = (\<lambda>t. 1000 * real t), e_srt = stableSort\<rparr>"

definition calmEnv :: env where
  "calmEnv = \<lparr>e_template = (\<lambda>n. Serpentine), e_dfs = noDfs, e_gen = noPath,
              e_rs = (\<lambda>k. 0), e_now = (\<lambda>t. 0), e_srt = stableSort\<rparr>"

text \<open>The late host with the selector on \<open>'checker2'\<close>.\<close>

definition checkerEnv :: env where
  "checkerEnv = lateEnv\<lparr>e_template := (\<lambda>n. Checker2)\<rparr>"

text \<open>The calm host with the selector on \<open>'center'\<close> and a generator call that raises
  a RangeError, as \<open>Array(cols)\<close> in \<open>buildCenterSpiralPath\<close> does for a negative
  \<open>cols\<close> and a positive \<open>rows\<close>.\<close>

definition raisingEnv :: env where
  "raisingEnv = calmEnv\<lparr>e_template := (\<lambda>n. Center),
                         e_gen := (\<lambda>tp cols rows. Inl RangeError)\<rparr>"

definition tiny :: levelDef where
  "tiny = \<lparr>d_cols = 2, d_rows = 2, d_K = 2, d_minGap = 1, d_wallPct = 0\<rparr>"

text \<open>Seven numbers on the six cells of a 3x2 grid.\<close>

definition wide :: levelDef where
  "wide = \<lparr>d_cols = 3, d_rows = 2, d_K = 7, d_minGap = 1, d_wallPct = 0\<rparr>"

lemma randomOk_zero: "randomOk (\<lambda>k. 0)"
  by (simp add: randomOk_def)

text \<open>What the examples read of a finished request.\<close>

definition outcome :: "run \<Rightarrow> js_error option \<times> bool \<times> nat \<times> nat \<times> message \<times> layout option" where
  "outcome r = (r_error r, r_solvable r, r_attempts r, r_ticks r, status (r_game r),
                savedLayout (r_game r))"

text \<open>
  An invalid configuration that is treated as a valid one: on the 3x2 grid
  \<open>buildCheckerboard2x2Path\<close> returns eight cells, so that seven numbers are placed
  without error in every attempt; all fifty candidates go to the verifier (two clock
  readings each) and the request ends with the failure message.
\<close>

lemma generateLevel_oversized_checker2:
  "invalidConfig wide
   \<and> outcome (generateLevel checkerEnv wide demo2x2 0 0)
       = (None, False, 50, 100, MsgCouldNotGenerate, None)"
  by code_simp

subsection \<open>C7: the attempt cap and the report of failure\<close>




subsection \<open>C6: invalid configurations\<close>

text \<open>
  C6, as stated: a request with \<open>K > cols * rows\<close> fails with an
  invalid-configuration error before any attempt is made. The script has no such
  check. With \<open>K = 5\<close> on the 2x2 grid the first attempt is made: the grid is set,
  the path is built, the indices are picked with eight random draws, four anchors
  are placed, and the numbering loop raises a TypeError at the fifth.
\<close>

theorem generateLevel_invalid_config_counterexample:
  "d_K (tiny\<lparr>d_K := 5\<rparr>) > d_cols (tiny\<lparr>d_K := 5\<rparr>) * d_rows (tiny\<lparr>d_K := 5\<rparr>)
   \<and> r_attempts (generateLevel calmEnv (tiny\<lparr>d_K := 5\<rparr>) demo2x2 0 0) = 1
   \<and> r_error (generateLevel calmEnv (tiny\<lparr>d_K := 5\<rparr>) demo2x2 0 0) = Some TypeError
   \<and> r_draws (generateLevel calmEnv (tiny\<lparr>d_K := 5\<rparr>) demo2x2 0 0) = 8
   \<and> anchors (r_game (generateLevel calmEnv (tiny\<lparr>d_K := 5\<rparr>) demo2x2 0 0))
       = [((1, 0), 1), ((0, 0), 2), ((0, 1), 3), ((1, 1), 4)]"
  by code_simp

text \<open>
  C6, amended. \<open>generateLevel\<close> has no check of its configuration and no
  invalid-configuration failure: for every configuration, valid or not, the first
  attempt is started; the grid is set to \<open>cols\<close> and \<open>rows\<close> and the path generator is
  called. Then, for random values in \<open>[0, 1)\<close>:

  \<^item> if the generator raises an error, the request ends with that error;

  \<^item> if it returns a path and \<open>K < 1\<close> (no anchors: the read of anchor 1 fails) or \<open>K\<close>
    exceeds the number of cells of the path (the numbering loop meets a missing
    cell), the request ends with a TypeError;

  in both cases in the first attempt, before any verifier call, with no layout
  saved and no message shown. This is the fate of every request with
  \<open>K > cols * rows\<close>, \<open>K < 1\<close> or a dimension that is not positive whose path has
  \<open>cols * rows\<close> cells (none for a dimension that is not positive), as the paths of
  the serpentine and of \<open>buildBlockSnakePath\<close> have (\<open>generate_invalid_modelled\<close>).

  \<^item> Otherwise the path has at least \<open>K \<ge> 1\<close> cells and the first attempt raises no
    error: its candidate goes to the verifier, as for a valid configuration. This
    happens for invalid configurations too (\<open>generateLevel_oversized_checker2\<close>).
\<close>

theorem generateLevel_invalid_config:
  assumes "randomOk (e_rs e)"
  shows "1 \<le> r_attempts (generateLevel e d g k t)
       \<and> COLS (r_game (generateLevel e d g k t)) = d_cols d
       \<and> ROWS (r_game (generateLevel e d g k t)) = d_rows d
       \<and> (case attemptPath e d 1 k t of
            Inl err \<Rightarrow> endsInFirstAttempt e d g k t err (generateLevel e d g k t)
          | Inr snake \<Rightarrow>
              (if d_K d < 1 \<or> int (length snake) < d_K d
               then endsInFirstAttempt e d g k t TypeError (generateLevel e d g k t)
               else r_error (generateLevel e d g k t) = None
                    \<or> 2 \<le> r_attempts (generateLevel e d g k t)))
       \<and> (\<forall>snake. invalidConfig d \<and> attemptPath e d 1 k t = Inr snake
              \<and> length snake = nat (d_cols d) * nat (d_rows d) \<longrightarrow>
            endsInFirstAttempt e d g k t TypeError (generateLevel e d g k t))"
proof -
  note go = generate_outcome[OF assms, of d g False k t]
  note fc = generate_first_attempt_cases[OF assms, where d = d and k = k and t = t and g = g
      and isZip = False]
  have iv: "endsInFirstAttempt e d g k t TypeError (generate e False d g k t)"
    if "invalidConfig d" "attemptPath e d 1 k t = Inr snake"
      "length snake = nat (d_cols d) * nat (d_rows d)" for snake
    using fc invalidConfig_short[OF that(1,3)] that(2) by simp
  from go have "1 \<le> r_attempts (generate e False d g k t)"
    "COLS (r_game (generate e False d g k t)) = d_cols d"
    "ROWS (r_game (generate e False d g k t)) = d_rows d"
    by (simp_all add: boundedOutcome_def)
  with fc iv show ?thesis
    unfolding generateLevel_def by blast
qed

text \<open>Three requests, one for each case. \<open>K = 5\<close> on the 2x2 grid with the
  serpentine: a path of four cells, a TypeError in the first attempt. A negative
  \<open>cols\<close> with a generator that raises a RangeError: the request ends with it. \<open>K = 7\<close>
  on the 3x2 grid with \<open>'checker2'\<close>: a path of eight cells, no error, fifty attempts.\<close>

theorem generateLevel_invalid_config_witness:
  "randomOk (e_rs calmEnv)
   \<and> invalidConfig (tiny\<lparr>d_K := 5\<rparr>)
   \<and> attemptPath calmEnv (tiny\<lparr>d_K := 5\<rparr>) 1 0 0 = Inr [(1, 0), (0, 0), (0, 1), (1, 1)]
   \<and> r_error (generateLevel calmEnv (tiny\<lparr>d_K := 5\<rparr>) demo2x2 0 0) = Some TypeError
   \<and> r_attempts (generateLevel calmEnv (tiny\<lparr>d_K := 5\<rparr>) demo2x2 0 0) = 1
   \<and> r_ticks (generateLevel calmEnv (tiny\<lparr>d_K := 5\<rparr>) demo2x2 0 0) = 0
   \<and> COLS (r_game (generateLevel calmEnv (tiny\<lparr>d_K := 5\<rparr>) demo2x2 0 0)) = 2
   \<and> savedLayout (r_game (generateLevel calmEnv (tiny\<lparr>d_K := 5\<rparr>) demo2x2 0 0)) = None
   \<and> status (r_game (generateLevel calmEnv (tiny\<lparr>d_K := 5\<rparr>) demo2x2 0 0)) = MsgNone
   \<and> randomOk (e_rs raisingEnv)
   \<and> invalidConfig (tiny\<lparr>d_cols := - 1\<rparr>)
   \<and> attemptPath raisingEnv (tiny\<lparr>d_cols := - 1\<rparr>) 1 0 0 = Inl RangeError
   \<and> r_error (generateLevel raisingEnv (tiny\<lparr>d_cols := - 1\<rparr>) demo2x2 0 0) = Some RangeError
   \<and> r_attempts (generateLevel raisingEnv (tiny\<lparr>d_cols := - 1\<rparr>) demo2x2 0 0) = 1
   \<and> COLS (r_game (generateLevel raisingEnv (tiny\<lparr>d_cols := - 1\<rparr>) demo2x2 0 0)) = - 1
   \<and> randomOk (e_rs checkerEnv)
   \<and> invalidConfig wide
   \<and> attemptPath checkerEnv wide 1 0 0
       = Inr [(0, 1), (0, 1), (0, 0), (0, 0), (1, 0), (2, 0), (1, 1), (2, 1)]
   \<and> r_error (generateLevel checkerEnv wide demo2x2 0 0) = None
   \<and> r_attempts (generateLevel checkerEnv wide demo2x2 0 0) = 50"
proof -
  have ok: "randomOk (e_rs calmEnv)" "randomOk (e_rs raisingEnv)" "randomOk (e_rs checkerEnv)"
    by (simp_all add: calmEnv_def raisingEnv_def checkerEnv_def lateEnv_def randomOk_zero)
  have iv: "invalidConfig (tiny\<lparr>d_K := 5\<rparr>)" "invalidConfig (tiny\<lparr>d_cols := - 1\<rparr>)"
    "invalidConfig wide"
    by (simp_all add: invalidConfig_def tiny_def wide_def)
  have p1: "attemptPath calmEnv (tiny\<lparr>d_K := 5\<rparr>) 1 0 0 = Inr [(1, 0), (0, 0), (0, 1), (1, 1)]"
    by code_simp
  have t1: "attemptPathTicks calmEnv (tiny\<lparr>d_K := 5\<rparr>) 1 0 0 = 0" by code_simp
  have p2: "attemptPath raisingEnv (tiny\<lparr>d_cols := - 1\<rparr>) 1 0 0 = Inl RangeError"
    by code_simp
  have p3: "attemptPath checkerEnv wide 1 0 0
       = Inr [(0, 1), (0, 1), (0, 0), (0, 0), (1, 0), (2, 0), (1, 1), (2, 1)]"
    by code_simp
  have d1: "d_K (tiny\<lparr>d_K := 5\<rparr>) = 5" "d_cols (tiny\<lparr>d_K := 5\<rparr>) = 2"
    "d_cols (tiny\<lparr>d_cols := - 1\<rparr>) = - 1" "d_K wide = 7"
    "savedLayout demo2x2 = None" "status demo2x2 = MsgNone"
    by (simp_all add: tiny_def wide_def demo2x2_def)
  note a = generateLevel_invalid_config[OF ok(1), of "tiny\<lparr>d_K := 5\<rparr>" demo2x2 0 0,
      unfolded p1 d1]
  note b = generateLevel_invalid_config[OF ok(2), of "tiny\<lparr>d_cols := - 1\<rparr>" demo2x2 0 0,
      unfolded p2 d1]
  note c = generateLevel_invalid_config[OF ok(3), of wide demo2x2 0 0, unfolded p3 d1]
  from a have a': "endsInFirstAttempt calmEnv (tiny\<lparr>d_K := 5\<rparr>) demo2x2 0 0 TypeError
      (generateLevel calmEnv (tiny\<lparr>d_K := 5\<rparr>) demo2x2 0 0)"
    "COLS (r_game (generateLevel calmEnv (tiny\<lparr>d_K := 5\<rparr>) demo2x2 0 0)) = 2"
    by simp_all
  from b have b': "endsInFirstAttempt raisingEnv (tiny\<lparr>d_cols := - 1\<rparr>) demo2x2 0 0 RangeError
      (generateLevel raisingEnv (tiny\<lparr>d_cols := - 1\<rparr>) demo2x2 0 0)"
    "COLS (r_game (generateLevel raisingEnv (tiny\<lparr>d_cols := - 1\<rparr>) demo2x2 0 0)) = - 1"
    by simp_all
  from c have c': "r_error (generateLevel checkerEnv wide demo2x2 0 0) = None
      \<or> 2 \<le> r_attempts (generateLevel checkerEnv wide demo2x2 0 0)"
    by simp
  from generateLevel_oversized_checker2
  have c'': "r_error (generateLevel checkerEnv wide demo2x2 0 0) = None"
    "r_attempts (generateLevel checkerEnv wide demo2x2 0 0) = 50"
    by (simp_all add: outcome_def)
  show ?thesis
    using ok iv p1 p2 p3 a' b' c'' t1 d1(5,6)
    by (simp add: endsInFirstAttempt_def)
qed

end
